theory Spec2Isabelle
  imports Complex_Main "HOL-Library.Word"
begin

section \<open>Data model of the segment store (iceberg\_store.hpp)\<close>

text \<open>
  Machine types. \<open>uint64_t\<close> record ids are 64-bit words. A \<open>size_t\<close> that is the size
  of a container is a \<open>nat\<close>; where the source subtracts or multiplies sizes the result is
  taken in \<open>64 word\<close>, so the wrap-around of \<open>size_t\<close> is part of the model. The
  \<open>float\<close>s of an embedding are \<open>real\<close>s: the store and the engine only copy them. The two
  places that compute with floats are modelled with their rounding: \<open>tombstone_ratio\<close> by
  the rounding to single precision defined below, \<open>cosine_sim\<close> over the operations of a
  float arithmetic that is a parameter, of which single precision is an instance. Segment
  ids are C++ \<open>int\<close>s that only count upwards from 0; they are \<open>int\<close>.
\<close>

type_synonym u64 = "64 word"
type_synonym size_t = "64 word"
type_synonym float = real

text \<open>\<open>struct VectorRecord\<close>; the field \<open>id\<close> is called \<open>rec_id\<close> (HOL has \<open>id\<close>).\<close>

record VectorRecord =
  rec_id :: u64
  embedding :: "float list"
  metadata :: string

text \<open>\<open>struct Segment\<close>: the mutable active segment.\<close>

record Segment =
  segment_id :: int
  records :: "VectorRecord list"
  deleted :: "u64 set"

text \<open>
  \<open>struct SealedSegment\<close>. Its fields \<open>segment_id\<close> and \<open>deleted\<close> carry the prefix
  \<open>sealed_\<close> here, since two records of one theory cannot share field names.
\<close>

record SealedSegment =
  sealed_segment_id :: int
  filepath :: string
  num_records :: nat
  sealed_deleted :: "u64 set"

record Snapshot =
  snapshot_id :: int
  timestamp_ms :: int
  segment_ids :: "int list"

text \<open>
  A Parquet file as the store writes and reads it: the three named columns. The
  \<open>embedding\<close> column is a fixed-size-list array, held as its flat child array of floats.
\<close>

record parquet_file =
  id_col :: "u64 list"
  embedding_floats :: "float list"
  metadata_col :: "string list"

text \<open>
  \<open>class IcebergStore\<close>. Besides the member variables (named without their trailing
  underscore) the state holds the files of the directory the store writes to (\<open>files\<close>,
  by path) and the wall clock that \<open>commit_snapshot\<close> reads (\<open>clock\<close>). The mutex is
  not modelled: every operation below is one critical section.
\<close>

record IcebergStore =
  dim :: nat
  segment_capacity :: nat
  data_dir :: string
  next_segment_id :: int
  active_segment :: Segment
  sealed_segments :: "SealedSegment list"
  snapshots :: "Snapshot list"
  files :: "string \<rightharpoonup> parquet_file"
  clock :: int

text \<open>
  The exceptions of the store and the engine, one constructor per \<open>throw\<close>:
  the four \<open>std::invalid_argument\<close>s of the store and the batch builder, the engine's
  schema and query checks, and a failed file open (\<open>PARQUET_ASSIGN_OR_THROW\<close>).
\<close>

datatype error =
    DimensionMismatch
  | BulkDimensionMismatch
  | NotDivisibleByDim
  | IOError
  | MissingIdColumn
  | MissingEmbeddingColumn
  | EmbeddingDimensionMismatch
  | QueryDimensionMismatch

subsection \<open>Segment statistics\<close>

definition live_count :: "Segment \<Rightarrow> size_t" where
  "live_count seg = of_nat (length (records seg)) - of_nat (card (deleted seg))"

definition sealed_live_count :: "SealedSegment \<Rightarrow> size_t" where
  "sealed_live_count seg = of_nat (num_records seg) - of_nat (card (sealed_deleted seg))"

subsection \<open>Rounding to single precision\<close>

text \<open>
  An IEEE 754 binary32 number other than an infinity or a NaN is a real \<open>m * 2 ^ e\<close> with
  an integer \<open>m\<close> of at most 24 bits and \<open>e\<close> from \<open>-149\<close> (the subnormal numbers) to 104. An
  operation of the machine returns the number nearest to the exact result, the one with
  the even \<open>m\<close> of two that are equally near. \<open>nearest_float\<close> is this rounding, without
  the upper bound on \<open>e\<close>: a result of \<open>2 ^ 128\<close> or more stands for an overflow. The two
  zeros of the format are one value here.
\<close>

text \<open>The number of binary digits of a positive integer.\<close>

function bit_length :: "int \<Rightarrow> nat" where
  "bit_length n = (if n \<le> 0 then 0 else Suc (bit_length (n div 2)))"
  by pat_completeness auto

termination
  by (relation "measure nat") auto

declare bit_length.simps [simp del]

definition pow2 :: "int \<Rightarrow> real" where
  "pow2 e = (if 0 \<le> e then 2 ^ nat e else 1 / 2 ^ nat (- e))"

text \<open>The integer nearest to \<open>y\<close>, the even one of two that are equally near.\<close>

definition round_to_even :: "real \<Rightarrow> int" where
  "round_to_even y =
     (let f = \<lfloor>y\<rfloor>
      in if y - of_int f > 1 / 2 \<or> (y - of_int f = 1 / 2 \<and> odd f) then f + 1 else f)"

text \<open>
  The exponent \<open>e\<close> of the last significand bit of a positive \<open>x\<close>: the one with
  \<open>2 ^ 23 \<le> x / 2 ^ e < 2 ^ 24\<close>, or \<open>-149\<close> if that is larger. The position of the
  leading bit of \<open>x\<close> is read off the integer part of \<open>x\<close>, or of \<open>1 / x\<close> when \<open>x < 1\<close>,
  where it can be one too low (at a power of two).
\<close>

definition last_bit_exponent :: "real \<Rightarrow> int" where
  "last_bit_exponent x =
     (let e = (if 1 \<le> x then int (bit_length \<lfloor>x\<rfloor>) - 24
               else - int (bit_length \<lfloor>1 / x\<rfloor>) - 23)
      in max (- 149) (if x < 2 ^ 24 * pow2 e then e else e + 1))"

definition nearest_float :: "real \<Rightarrow> float" where
  "nearest_float x =
     (if x = 0 then 0
      else let e = last_bit_exponent \<bar>x\<bar>;
               r = of_int (round_to_even (\<bar>x\<bar> / pow2 e)) * pow2 e
           in if 0 < x then r else - r)"

text \<open>
  \<open>SealedSegment::tombstone_ratio\<close>: both sizes are cast to \<open>float\<close>, which rounds them, and
  the quotient of the two floats is rounded. The sizes are below \<open>2 ^ 64\<close>, so nothing
  overflows.
\<close>

definition tombstone_ratio :: "SealedSegment \<Rightarrow> float" where
  "tombstone_ratio seg =
     (if num_records seg = 0 then 0
      else nearest_float (nearest_float (real (card (sealed_deleted seg)))
                          / nearest_float (real (num_records seg))))"

text \<open>
  The threshold of a compaction is any \<open>float\<close> the caller passes: a finite value, an
  infinity or a NaN. \<open>ratio_reaches r t\<close> is the comparison \<open>r >= t\<close> of \<open>compact\<close> for a
  finite ratio \<open>r\<close>, and \<open>ratio_below r t\<close> is \<open>r < t\<close>; both are false when \<open>t\<close> is a NaN.
\<close>

datatype float32 = Finite float | PlusInfinity | MinusInfinity | NotANumber

fun ratio_reaches :: "float \<Rightarrow> float32 \<Rightarrow> bool" where
  "ratio_reaches r (Finite t) = (r \<ge> t)"
| "ratio_reaches r PlusInfinity = False"
| "ratio_reaches r MinusInfinity = True"
| "ratio_reaches r NotANumber = False"


subsection \<open>File names\<close>

text \<open>\<open>std::to_string\<close> on an \<open>int\<close>: decimal digits, with a minus sign below zero.\<close>

definition digit_char :: "nat \<Rightarrow> char" where
  "digit_char d = ''0123456789'' ! d"

fun digits :: "nat \<Rightarrow> string" where
  "digits n = (if n < 10 then [digit_char n] else digits (n div 10) @ [digit_char (n mod 10)])"

declare digits.simps [simp del]

definition to_string :: "int \<Rightarrow> string" where
  "to_string i = (if i < 0 then CHR ''-'' # digits (nat (- i)) else digits (nat i))"

definition segment_path :: "string \<Rightarrow> int \<Rightarrow> string" where
  "segment_path dir i = dir @ ''/segment_'' @ to_string i @ ''.parquet''"

subsection \<open>Writing and reading a segment file\<close>

text \<open>
  \<open>write_parquet\<close>: the three loops that collect the columns, then the batch builder.
  \<open>add_vector_column\<close> throws when \<open>dim = 0\<close> or the flat buffer is not a multiple of
  \<open>dim\<close>; otherwise the table is written to \<open>path\<close>.
\<close>

definition write_parquet ::
  "nat \<Rightarrow> string \<Rightarrow> VectorRecord list \<Rightarrow> (string \<rightharpoonup> parquet_file)
     \<Rightarrow> error + (string \<rightharpoonup> parquet_file)" where
  "write_parquet d path recs fs =
     (let ids = map rec_id recs;
          flat_vectors = concat (map embedding recs);
          metas = map metadata recs
      in if d = 0 \<or> length flat_vectors mod d \<noteq> 0 then Inl NotDivisibleByDim
         else Inr (fs(path \<mapsto>
                \<lparr>id_col = ids, embedding_floats = flat_vectors, metadata_col = metas\<rparr>)))"

definition num_rows :: "parquet_file \<Rightarrow> nat" where
  "num_rows f = length (id_col f)"

text \<open>Row \<open>i\<close> of a file, as the body of the loop of \<open>read_parquet\<close> builds it.\<close>

definition file_row :: "nat \<Rightarrow> parquet_file \<Rightarrow> nat \<Rightarrow> VectorRecord" where
  "file_row d f i =
     \<lparr>rec_id = id_col f ! i,
      embedding = take d (drop (i * d) (embedding_floats f)),
      metadata = metadata_col f ! i\<rparr>"

function read_rows ::
  "nat \<Rightarrow> parquet_file \<Rightarrow> u64 set \<Rightarrow> nat \<Rightarrow> VectorRecord list \<Rightarrow> VectorRecord list" where
  "read_rows d f del i result =
     (if i < num_rows f then
        (if id_col f ! i \<notin> del then read_rows d f del (i + 1) (result @ [file_row d f i])
         else read_rows d f del (i + 1) result)
      else result)"
  by pat_completeness auto
termination
  by (relation "measure (\<lambda>(d, f, del, i, result). num_rows f - i)") auto

declare read_rows.simps [simp del]

definition read_parquet ::
  "nat \<Rightarrow> (string \<rightharpoonup> parquet_file) \<Rightarrow> string \<Rightarrow> u64 set \<Rightarrow> error + VectorRecord list" where
  "read_parquet d fs path del =
     (case fs path of
        None \<Rightarrow> Inl IOError
      | Some f \<Rightarrow> Inr (read_rows d f del 0 []))"

subsection \<open>Snapshots and sealing\<close>

definition commit_snapshot :: "IcebergStore \<Rightarrow> IcebergStore" where
  "commit_snapshot s =
     s\<lparr>snapshots := snapshots s @
         [\<lparr>snapshot_id = int (length (snapshots s)),
           timestamp_ms = clock s,
           segment_ids = map sealed_segment_id (sealed_segments s)\<rparr>]\<rparr>"

text \<open>
  The constructor. \<open>fs\<close> is what the directory holds when the store is opened, \<open>now\<close>
  the clock.
\<close>

definition open_store ::
  "nat \<Rightarrow> nat \<Rightarrow> string \<Rightarrow> (string \<rightharpoonup> parquet_file) \<Rightarrow> int \<Rightarrow> IcebergStore" where
  "open_store d cap dir fs now =
     commit_snapshot
       \<lparr>dim = d, segment_capacity = cap, data_dir = dir, next_segment_id = 1,
        active_segment = \<lparr>segment_id = 0, records = [], deleted = {}\<rparr>,
        sealed_segments = [], snapshots = [], files = fs, clock = now\<rparr>"

text \<open>
  \<open>flush_active_segment_locked\<close>. An exception of \<open>write_parquet\<close> leaves the store as it
  was when the call began.
\<close>

definition flush_active_segment_locked :: "IcebergStore \<Rightarrow> (error + unit) \<times> IcebergStore" where
  "flush_active_segment_locked s =
     (if records (active_segment s) = [] then (Inr (), s)
      else
        let path = segment_path (data_dir s) (segment_id (active_segment s)) in
        case write_parquet (dim s) path (records (active_segment s)) (files s) of
          Inl e \<Rightarrow> (Inl e, s)
        | Inr fs' \<Rightarrow>
            let sealed = \<lparr>sealed_segment_id = segment_id (active_segment s),
                          filepath = path,
                          num_records = length (records (active_segment s)),
                          sealed_deleted = deleted (active_segment s)\<rparr>
            in (Inr (),
                commit_snapshot
                  (s\<lparr>files := fs',
                     sealed_segments := sealed_segments s @ [sealed],
                     active_segment :=
                       \<lparr>segment_id = next_segment_id s, records = [], deleted = {}\<rparr>,
                     next_segment_id := next_segment_id s + 1\<rparr>)))"

subsection \<open>Write path\<close>

definition push_record :: "VectorRecord \<Rightarrow> IcebergStore \<Rightarrow> IcebergStore" where
  "push_record r s =
     s\<lparr>active_segment := (active_segment s)\<lparr>records := records (active_segment s) @ [r]\<rparr>\<rparr>"

text \<open>\<open>IcebergStore::insert\<close>.\<close>

definition store_insert ::
  "u64 \<Rightarrow> float list \<Rightarrow> string \<Rightarrow> IcebergStore \<Rightarrow> (error + unit) \<times> IcebergStore" where
  "store_insert i emb meta s =
     (if length emb \<noteq> dim s then (Inl DimensionMismatch, s)
      else
        let s1 = push_record \<lparr>rec_id = i, embedding = emb, metadata = meta\<rparr> s
        in if length (records (active_segment s1)) \<ge> segment_capacity s1
           then flush_active_segment_locked s1
           else (Inr (), s1))"

text \<open>
  \<open>IcebergStore::bulk_insert\<close>: \<open>ids\<close> and \<open>vectors\<close> are the two raw buffers, \<open>count\<close>
  and \<open>d\<close> the sizes the caller passes. An exception of a flush ends the loop with the
  rows appended so far.
\<close>

definition bulk_row :: "u64 list \<Rightarrow> float list \<Rightarrow> nat \<Rightarrow> nat \<Rightarrow> VectorRecord" where
  "bulk_row ids vectors d i =
     \<lparr>rec_id = ids ! i, embedding = take d (drop (i * d) vectors), metadata = []\<rparr>"

function bulk_insert_loop ::
  "u64 list \<Rightarrow> float list \<Rightarrow> nat \<Rightarrow> nat \<Rightarrow> nat \<Rightarrow> IcebergStore
     \<Rightarrow> (error + unit) \<times> IcebergStore" where
  "bulk_insert_loop ids vectors count d i s =
     (if i < count then
        (if length (records (active_segment (push_record (bulk_row ids vectors d i) s)))
              \<ge> segment_capacity s then
           (case flush_active_segment_locked (push_record (bulk_row ids vectors d i) s) of
              (Inl e, s') \<Rightarrow> (Inl e, s')
            | (Inr u, s') \<Rightarrow> bulk_insert_loop ids vectors count d (i + 1) s')
         else bulk_insert_loop ids vectors count d (i + 1)
                (push_record (bulk_row ids vectors d i) s))
      else (Inr (), s))"
  by pat_completeness auto
termination
  by (relation "measure (\<lambda>(ids, vectors, count, d, i, s). count - i)") auto

declare bulk_insert_loop.simps [simp del]

definition bulk_insert ::
  "u64 list \<Rightarrow> float list \<Rightarrow> nat \<Rightarrow> nat \<Rightarrow> IcebergStore \<Rightarrow> (error + unit) \<times> IcebergStore" where
  "bulk_insert ids vectors count d s =
     (if d \<noteq> dim s then (Inl BulkDimensionMismatch, s)
      else bulk_insert_loop ids vectors count d 0 s)"

text \<open>
  \<open>IcebergStore::delete_vector\<close>: the first loop returns at the first active record with
  the id; the second loop runs only when the first found nothing.
\<close>

fun found_in_active :: "u64 \<Rightarrow> VectorRecord list \<Rightarrow> bool" where
  "found_in_active i [] = False"
| "found_in_active i (r # rs) = (if rec_id r = i then True else found_in_active i rs)"

fun tombstone_sealed :: "u64 \<Rightarrow> SealedSegment list \<Rightarrow> SealedSegment list" where
  "tombstone_sealed i [] = []"
| "tombstone_sealed i (seg # segs) =
     seg\<lparr>sealed_deleted := insert i (sealed_deleted seg)\<rparr> # tombstone_sealed i segs"

definition delete_vector :: "u64 \<Rightarrow> IcebergStore \<Rightarrow> IcebergStore" where
  "delete_vector i s =
     (if found_in_active i (records (active_segment s))
      then s\<lparr>active_segment :=
               (active_segment s)\<lparr>deleted := insert i (deleted (active_segment s))\<rparr>\<rparr>
      else s\<lparr>sealed_segments := tombstone_sealed i (sealed_segments s)\<rparr>)"

definition flush :: "IcebergStore \<Rightarrow> (error + unit) \<times> IcebergStore" where
  "flush s = flush_active_segment_locked s"

subsection \<open>Read path\<close>

fun scan_sealed ::
  "nat \<Rightarrow> (string \<rightharpoonup> parquet_file) \<Rightarrow> SealedSegment list \<Rightarrow> VectorRecord list
     \<Rightarrow> error + VectorRecord list" where
  "scan_sealed d fs [] result = Inr result"
| "scan_sealed d fs (seg # segs) result =
     (case read_parquet d fs (filepath seg) (sealed_deleted seg) of
        Inl e \<Rightarrow> Inl e
      | Inr recs \<Rightarrow> scan_sealed d fs segs (result @ recs))"

fun scan_active :: "u64 set \<Rightarrow> VectorRecord list \<Rightarrow> VectorRecord list \<Rightarrow> VectorRecord list" where
  "scan_active del [] result = result"
| "scan_active del (r # rs) result =
     (if rec_id r \<notin> del then scan_active del rs (result @ [r]) else scan_active del rs result)"

definition scan_all :: "IcebergStore \<Rightarrow> error + VectorRecord list" where
  "scan_all s =
     (case scan_sealed (dim s) (files s) (sealed_segments s) [] of
        Inl e \<Rightarrow> Inl e
      | Inr result \<Rightarrow>
          Inr (scan_active (deleted (active_segment s)) (records (active_segment s)) result))"

subsection \<open>Statistics\<close>

definition total_records :: "IcebergStore \<Rightarrow> size_t" where
  "total_records s =
     foldl (\<lambda>total seg. total + of_nat (num_records seg))
       (of_nat (length (records (active_segment s)))) (sealed_segments s)"

definition total_live_records :: "IcebergStore \<Rightarrow> size_t" where
  "total_live_records s =
     foldl (\<lambda>total seg. total + sealed_live_count seg)
       (live_count (active_segment s)) (sealed_segments s)"


definition snapshot_count :: "IcebergStore \<Rightarrow> nat" where
  "snapshot_count s = length (snapshots s)"

subsection \<open>Compaction\<close>

text \<open>
  What \<open>clean.push_back(std::move(seg))\<close> leaves behind in \<open>sealed_segments_\<close>: the
  integers are copied, the string and the set are emptied (libstdc++ and libc++). The
  shells are only visible when a later iteration throws; otherwise the vector is
  replaced by \<open>clean\<close>.
\<close>

definition moved_from :: "SealedSegment \<Rightarrow> SealedSegment" where
  "moved_from seg = seg\<lparr>filepath := [], sealed_deleted := {}\<rparr>"

text \<open>
  The loop of \<open>compact\<close> over \<open>sealed_segments_\<close>. The state of the loop is the files,
  the segments already visited (as the loop left them), \<open>clean\<close>, \<open>to_merge\<close> and
  \<open>reclaimed\<close>. When \<open>read_parquet\<close> throws, the result is the error with the files and
  the vector as they are at that moment.
\<close>

fun compact_loop ::
  "float32 \<Rightarrow> nat \<Rightarrow> SealedSegment list
     \<Rightarrow> (string \<rightharpoonup> parquet_file) \<times> SealedSegment list \<times> SealedSegment list
          \<times> VectorRecord list \<times> size_t
     \<Rightarrow> (error \<times> (string \<rightharpoonup> parquet_file) \<times> SealedSegment list)
          + ((string \<rightharpoonup> parquet_file) \<times> SealedSegment list \<times> SealedSegment list
             \<times> VectorRecord list \<times> size_t)" where
  "compact_loop t d [] st = Inr st"
| "compact_loop t d (seg # segs) (fs, visited, clean, to_merge, reclaimed) =
     (if ratio_reaches (tombstone_ratio seg) t then
        (case read_parquet d fs (filepath seg) (sealed_deleted seg) of
           Inl e \<Rightarrow> Inl (e, fs, visited @ seg # segs)
         | Inr recs \<Rightarrow>
             compact_loop t d segs
               (fs(filepath seg := None), visited @ [seg], clean, to_merge @ recs,
                reclaimed + (of_nat (num_records seg) - of_nat (length recs))))
      else
        compact_loop t d segs
          (fs, visited @ [moved_from seg], clean @ [seg], to_merge, reclaimed))"

text \<open>\<open>IcebergStore::compact\<close>.\<close>

definition store_compact :: "float32 \<Rightarrow> IcebergStore \<Rightarrow> (error + size_t) \<times> IcebergStore" where
  "store_compact tombstone_threshold s =
     (case compact_loop tombstone_threshold (dim s) (sealed_segments s)
             (files s, [], [], [], 0) of
        Inl (e, fs, segs) \<Rightarrow> (Inl e, s\<lparr>files := fs, sealed_segments := segs\<rparr>)
      | Inr (fs, visited, clean, to_merge, reclaimed) \<Rightarrow>
          if to_merge \<noteq> [] then
            let new_seg_id = next_segment_id s;
                path = segment_path (data_dir s) new_seg_id
            in case write_parquet (dim s) path to_merge fs of
                 Inl e \<Rightarrow>
                   (Inl e, s\<lparr>files := fs, sealed_segments := visited,
                             next_segment_id := next_segment_id s + 1\<rparr>)
               | Inr fs' \<Rightarrow>
                   (Inr reclaimed,
                    commit_snapshot
                      (s\<lparr>files := fs',
                         next_segment_id := next_segment_id s + 1,
                         sealed_segments :=
                           clean @ [\<lparr>sealed_segment_id = new_seg_id, filepath = path,
                                     num_records = length to_merge,
                                     sealed_deleted = {}\<rparr>]\<rparr>))
          else (Inr reclaimed, commit_snapshot (s\<lparr>files := fs, sealed_segments := clean\<rparr>)))"

section \<open>The HNSW index as the engine uses it (hnsw.hpp)\<close>

text \<open>
  The engine reads three things of the index: its parameters, the vectors it holds
  (\<open>vectors_\<close>, one per insert, in insertion order) and the candidates a search returns.
  The proximity graph, the entry point and the level generator decide only which
  candidates a search returns; they rest on float distances and on the draws of the
  Mersenne twister and are not part of this model. A search is therefore a parameter
  \<open>hsearch\<close> of the engine's \<open>search\<close> below.
\<close>

record HNSWIndex =
  hnsw_dim :: nat
  hnsw_M :: nat
  hnsw_M_max0 :: nat
  hnsw_ef_construction :: nat
  hnsw_ef_search :: nat
  hnsw_vectors :: "float list list"

text \<open>\<open>HNSWIndex::SearchResult\<close>.\<close>

record SearchResult =
  sr_distance :: float
  sr_id :: nat

definition hnsw_new :: "nat \<Rightarrow> nat \<Rightarrow> nat \<Rightarrow> nat \<Rightarrow> HNSWIndex" where
  "hnsw_new d m ef_c ef_s =
     \<lparr>hnsw_dim = d, hnsw_M = m, hnsw_M_max0 = (2 * m) mod 2 ^ 64,
      hnsw_ef_construction = ef_c, hnsw_ef_search = ef_s, hnsw_vectors = []\<rparr>"

definition hnsw_insert :: "float list \<Rightarrow> HNSWIndex \<Rightarrow> HNSWIndex" where
  "hnsw_insert vec h = h\<lparr>hnsw_vectors := hnsw_vectors h @ [vec]\<rparr>"

fun hnsw_build :: "float list list \<Rightarrow> HNSWIndex \<Rightarrow> HNSWIndex" where
  "hnsw_build [] h = h"
| "hnsw_build (v # vs) h = hnsw_build vs (hnsw_insert v h)"

definition hnsw_size :: "HNSWIndex \<Rightarrow> nat" where
  "hnsw_size h = length (hnsw_vectors h)"

definition set_ef_search :: "nat \<Rightarrow> HNSWIndex \<Rightarrow> HNSWIndex" where
  "set_ef_search ef h = h\<lparr>hnsw_ef_search := ef\<rparr>"

section \<open>The engine (vector\_db.hpp)\<close>

text \<open>
  An Arrow record batch as \<open>ingest_batch\<close> reads it: the row count and the three
  columns by name, each present or not. The embedding column carries the list size of
  its type (an \<open>int32_t\<close>) and its flat child array.
\<close>

record RecordBatch =
  batch_num_rows :: nat
  id_column :: "u64 list option"
  embedding_column :: "(int \<times> float list) option"
  metadata_column :: "string list option"

record VDBSearchResult =
  vr_id :: u64
  vr_distance :: float
  vr_metadata :: string

record VectorDB =
  vdb_dim :: nat
  store :: IcebergStore
  hnsw :: HNSWIndex

text \<open>The constructor; the store gets the default directory.\<close>

definition vectordb_new ::
  "nat \<Rightarrow> nat \<Rightarrow> nat \<Rightarrow> nat \<Rightarrow> nat \<Rightarrow> (string \<rightharpoonup> parquet_file) \<Rightarrow> int \<Rightarrow> VectorDB" where
  "vectordb_new d m ef_construct ef_s seg_capacity fs now =
     \<lparr>vdb_dim = d,
      store = open_store d seg_capacity ''/tmp/vectordb'' fs now,
      hnsw = hnsw_new d m ef_construct ef_s\<rparr>"

text \<open>The loop of step 3 of \<open>ingest_batch\<close>: one index insert per row.\<close>

function index_rows :: "float list \<Rightarrow> nat \<Rightarrow> nat \<Rightarrow> nat \<Rightarrow> HNSWIndex \<Rightarrow> HNSWIndex" where
  "index_rows raw_floats d n i h =
     (if i < n then index_rows raw_floats d n (i + 1)
                      (hnsw_insert (take d (drop (i * d) raw_floats)) h)
      else h)"
  by pat_completeness auto
termination
  by (relation "measure (\<lambda>(raw_floats, d, n, i, h). n - i)") auto

declare index_rows.simps [simp del]

definition ingest_batch :: "RecordBatch \<Rightarrow> VectorDB \<Rightarrow> (error + nat) \<times> VectorDB" where
  "ingest_batch batch db =
     (case id_column batch of
        None \<Rightarrow> (Inl MissingIdColumn, db)
      | Some ids \<Rightarrow>
          (case embedding_column batch of
             None \<Rightarrow> (Inl MissingEmbeddingColumn, db)
           | Some (list_size, floats) \<Rightarrow>
               if list_size \<noteq> sint (word_of_nat (vdb_dim db) :: 32 word)
               then (Inl EmbeddingDimensionMismatch, db)
               else
                 let n = batch_num_rows batch in
                 case bulk_insert ids floats n (vdb_dim db) (store db) of
                   (Inl e, st) \<Rightarrow> (Inl e, db\<lparr>store := st\<rparr>)
                 | (Inr u, st) \<Rightarrow>
                     (Inr n,
                      db\<lparr>store := st,
                         hnsw := index_rows floats (vdb_dim db) n 0 (hnsw db)\<rparr>)))"

definition vdb_insert ::
  "u64 \<Rightarrow> float list \<Rightarrow> string \<Rightarrow> VectorDB \<Rightarrow> (error + unit) \<times> VectorDB" where
  "vdb_insert i emb meta db =
     (case store_insert i emb meta (store db) of
        (Inl e, st) \<Rightarrow> (Inl e, db\<lparr>store := st\<rparr>)
      | (Inr u, st) \<Rightarrow> (Inr (), db\<lparr>store := st, hnsw := hnsw_insert emb (hnsw db)\<rparr>))"

text \<open>
  The result loop of \<open>search\<close>: a candidate whose id is a position of \<open>all_records\<close> is
  pushed; the size test and the \<open>break\<close> come after the push.
\<close>

fun collect_results ::
  "nat \<Rightarrow> VectorRecord list \<Rightarrow> SearchResult list \<Rightarrow> VDBSearchResult list
     \<Rightarrow> VDBSearchResult list" where
  "collect_results k all_records [] results = results"
| "collect_results k all_records (hr # hrs) results =
     (let results' =
        (if sr_id hr < length all_records
         then results @ [\<lparr>vr_id = rec_id (all_records ! sr_id hr),
                          vr_distance = sr_distance hr,
                          vr_metadata = metadata (all_records ! sr_id hr)\<rparr>]
         else results)
      in if length results' \<ge> k then results'
         else collect_results k all_records hrs results')"

text \<open>
  \<open>VectorDB::search\<close>. \<open>k\<close> is a \<open>size_t\<close>, so \<open>k * 2\<close> is taken modulo \<open>2 ^ 64\<close>.
\<close>

definition search ::
  "(HNSWIndex \<Rightarrow> float list \<Rightarrow> nat \<Rightarrow> SearchResult list) \<Rightarrow> float list \<Rightarrow> nat \<Rightarrow> VectorDB
     \<Rightarrow> (error + VDBSearchResult list) \<times> VectorDB" where
  "search hsearch query k db =
     (if length query \<noteq> vdb_dim db then (Inl QueryDimensionMismatch, db)
      else
        let ef = max ((k * 2) mod 2 ^ 64) 50;
            h = set_ef_search ef (hnsw db);
            hnsw_results = hsearch h query ef
        in case scan_all (store db) of
             Inl e \<Rightarrow> (Inl e, db\<lparr>hnsw := h\<rparr>)
           | Inr all_records \<Rightarrow>
               (Inr (collect_results k all_records hnsw_results []), db\<lparr>hnsw := h\<rparr>))"

definition vdb_delete_vector :: "u64 \<Rightarrow> VectorDB \<Rightarrow> VectorDB" where
  "vdb_delete_vector i db = db\<lparr>store := delete_vector i (store db)\<rparr>"

text \<open>\<open>VectorDB::compact_and_rebuild\<close>.\<close>

definition compact_and_rebuild :: "float32 \<Rightarrow> VectorDB \<Rightarrow> (error + size_t) \<times> VectorDB" where
  "compact_and_rebuild tombstone_threshold db =
     (case store_compact tombstone_threshold (store db) of
        (Inl e, st) \<Rightarrow> (Inl e, db\<lparr>store := st\<rparr>)
      | (Inr reclaimed, st) \<Rightarrow>
          (case scan_all st of
             Inl e \<Rightarrow> (Inl e, db\<lparr>store := st\<rparr>)
           | Inr live \<Rightarrow>
               (Inr reclaimed,
                db\<lparr>store := st,
                   hnsw := hnsw_build (map embedding live)
                             (hnsw_new (vdb_dim db) 16 200 50)\<rparr>)))"

section \<open>Cosine similarity of the random-hyperplane LSH (lsh.hpp)\<close>

text \<open>
  \<open>cosine_sim\<close> computes in \<open>float\<close>: every operation rounds, overflows to an infinity or
  yields a NaN as the machine has it. The function is modelled over the float operations
  it uses, which are a parameter: a type \<open>'f\<close> of floats with the two literals \<open>0.0f\<close> and
  \<open>1e-10f\<close>, the step \<open>acc += x * y\<close> of the loop (rounded twice, or once where the compiler
  contracts it to a fused multiply-add), \<open>std::sqrt\<close>, \<open>*\<close>, \<open>/\<close> and \<open>>\<close>.
\<close>

record 'f float_ops =
  f_zero :: 'f
  f_guard :: 'f
  f_mul_add :: "'f \<Rightarrow> 'f \<Rightarrow> 'f \<Rightarrow> 'f"
  f_sqrt :: "'f \<Rightarrow> 'f"
  f_mul :: "'f \<Rightarrow> 'f \<Rightarrow> 'f"
  f_div :: "'f \<Rightarrow> 'f \<Rightarrow> 'f"
  f_greater :: "'f \<Rightarrow> 'f \<Rightarrow> bool"

text \<open>
  The loop of \<open>cosine_sim\<close> runs over the indices of \<open>a\<close> and reads \<open>b\<close> at the same
  index. Reading \<open>b\<close> past its end is undefined behaviour: the model gives \<open>None\<close>.
\<close>

fun cosine_sums ::
  "'f float_ops \<Rightarrow> 'f list \<Rightarrow> 'f list \<Rightarrow> 'f \<times> 'f \<times> 'f \<Rightarrow> ('f \<times> 'f \<times> 'f) option" where
  "cosine_sums ops [] b acc = Some acc"
| "cosine_sums ops (x # a) [] acc = None"
| "cosine_sums ops (x # a) (y # b) (dot, na, nb) =
     cosine_sums ops a b
       (f_mul_add ops dot x y, f_mul_add ops na x x, f_mul_add ops nb y y)"

definition cosine_sim :: "'f float_ops \<Rightarrow> 'f list \<Rightarrow> 'f list \<Rightarrow> 'f option" where
  "cosine_sim ops a b =
     (case cosine_sums ops a b (f_zero ops, f_zero ops, f_zero ops) of
        None \<Rightarrow> None
      | Some (dot, na, nb) \<Rightarrow>
          let denom = f_mul ops (f_sqrt ops na) (f_sqrt ops nb)
          in Some (if f_greater ops denom (f_guard ops) then f_div ops dot denom
                   else f_zero ops))"

text \<open>
  The inner product of the specification, in the same arithmetic: the products
  \<open>x\<^sub>i \<sqdot> y\<^sub>i\<close> accumulated from 0 in the order of the indices.
\<close>

definition inner_spec :: "'f float_ops \<Rightarrow> 'f list \<Rightarrow> 'f list \<Rightarrow> 'f" where
  "inner_spec ops x y =
     foldl (\<lambda>acc i. f_mul_add ops acc (x ! i) (y ! i)) (f_zero ops) [0..<length x]"

text \<open>
  Single precision as an instance. An operation on finite numbers rounds the exact
  result, to an infinity when the rounded value is out of range; the infinities and the
  NaN follow IEEE 754. The step \<open>acc += x * y\<close> rounds the product and then the sum (no
  fused multiply-add). The two zeros being one value, a quotient by zero has the sign it
  has for \<open>+0\<close>; \<open>cosine_sim\<close> divides only by a number greater than \<open>1e-10f\<close>. The literal
  \<open>1e-10f\<close> is the float nearest to \<open>10\<^sup>-\<^sup>1\<^sup>0\<close>, which is \<open>14411519 / 2\<^sup>5\<^sup>7\<close>.
\<close>

definition round32 :: "real \<Rightarrow> float32" where
  "round32 x =
     (let r = nearest_float x
      in if 2 ^ 128 \<le> r then PlusInfinity
         else if r \<le> - (2 ^ 128) then MinusInfinity
         else Finite r)"

fun f32_sign :: "float32 \<Rightarrow> int" where
  "f32_sign (Finite x) = (if 0 < x then 1 else if x < 0 then - 1 else 0)"
| "f32_sign PlusInfinity = 1"
| "f32_sign MinusInfinity = - 1"
| "f32_sign NotANumber = 0"

definition signed_infinity :: "int \<Rightarrow> float32" where
  "signed_infinity s =
     (if 0 < s then PlusInfinity else if s < 0 then MinusInfinity else NotANumber)"

fun f32_add :: "float32 \<Rightarrow> float32 \<Rightarrow> float32" where
  "f32_add (Finite x) (Finite y) = round32 (x + y)"
| "f32_add NotANumber y = NotANumber"
| "f32_add x NotANumber = NotANumber"
| "f32_add PlusInfinity MinusInfinity = NotANumber"
| "f32_add MinusInfinity PlusInfinity = NotANumber"
| "f32_add PlusInfinity y = PlusInfinity"
| "f32_add MinusInfinity y = MinusInfinity"
| "f32_add (Finite x) y = y"

fun f32_mul :: "float32 \<Rightarrow> float32 \<Rightarrow> float32" where
  "f32_mul (Finite x) (Finite y) = round32 (x * y)"
| "f32_mul NotANumber y = NotANumber"
| "f32_mul x NotANumber = NotANumber"
| "f32_mul x y = signed_infinity (f32_sign x * f32_sign y)"

fun f32_div :: "float32 \<Rightarrow> float32 \<Rightarrow> float32" where
  "f32_div (Finite x) (Finite y) =
     (if y = 0 then signed_infinity (f32_sign (Finite x)) else round32 (x / y))"
| "f32_div NotANumber y = NotANumber"
| "f32_div x NotANumber = NotANumber"
| "f32_div (Finite x) y = Finite 0"
| "f32_div x (Finite y) = signed_infinity (f32_sign x * (if y < 0 then - 1 else 1))"
| "f32_div x y = NotANumber"

fun f32_sqrt :: "float32 \<Rightarrow> float32" where
  "f32_sqrt (Finite x) = (if x < 0 then NotANumber else round32 (sqrt x))"
| "f32_sqrt PlusInfinity = PlusInfinity"
| "f32_sqrt MinusInfinity = NotANumber"
| "f32_sqrt NotANumber = NotANumber"

fun f32_greater :: "float32 \<Rightarrow> float32 \<Rightarrow> bool" where
  "f32_greater (Finite x) (Finite y) = (x > y)"
| "f32_greater NotANumber y = False"
| "f32_greater x NotANumber = False"
| "f32_greater x PlusInfinity = False"
| "f32_greater MinusInfinity y = False"
| "f32_greater x y = True"

definition binary32 :: "float32 float_ops" where
  "binary32 =
     \<lparr>f_zero = Finite 0, f_guard = Finite (14411519 / 2 ^ 57),
      f_mul_add = (\<lambda>acc x y. f32_add acc (f32_mul x y)), f_sqrt = f32_sqrt,
      f_mul = f32_mul, f_div = f32_div, f_greater = f32_greater\<rparr>"

text \<open>
  The arithmetic in which no operation rounds: in it \<open>inner_spec\<close> is the sum of the
  products.
\<close>

definition exact_arith :: "real float_ops" where
  "exact_arith =
     \<lparr>f_zero = 0, f_guard = 14411519 / 2 ^ 57,
      f_mul_add = (\<lambda>acc x y. acc + x * y), f_sqrt = sqrt,
      f_mul = (\<lambda>x y. x * y), f_div = (\<lambda>x y. x / y), f_greater = (\<lambda>x y. x > y)\<rparr>"

section \<open>Notions the properties are stated with\<close>

text \<open>The rows of a file, and those that a tombstone set leaves.\<close>

definition file_rows :: "nat \<Rightarrow> parquet_file \<Rightarrow> VectorRecord list" where
  "file_rows d f = map (file_row d f) [0..<num_rows f]"

definition live_rows :: "nat \<Rightarrow> parquet_file \<Rightarrow> u64 set \<Rightarrow> VectorRecord list" where
  "live_rows d f del = filter (\<lambda>r. rec_id r \<notin> del) (file_rows d f)"

text \<open>The live rows of a sealed segment of a store, read from its file.\<close>

definition segment_live_rows :: "IcebergStore \<Rightarrow> SealedSegment \<Rightarrow> VectorRecord list" where
  "segment_live_rows s seg =
     (case files s (filepath seg) of
        None \<Rightarrow> []
      | Some f \<Rightarrow> live_rows (dim s) f (sealed_deleted seg))"

text \<open>The file that \<open>write_parquet\<close> writes for a list of records.\<close>

definition file_of :: "VectorRecord list \<Rightarrow> parquet_file" where
  "file_of recs =
     \<lparr>id_col = map rec_id recs, embedding_floats = concat (map embedding recs),
      metadata_col = map metadata recs\<rparr>"

text \<open>
  The live records of a store, as claim C1 describes the result of \<open>scan_all\<close>: the live
  rows of the sealed segments in order, then the live records of the active segment.
\<close>

definition live_records :: "IcebergStore \<Rightarrow> VectorRecord list" where
  "live_records s =
     concat (map (segment_live_rows s) (sealed_segments s))
     @ filter (\<lambda>r. rec_id r \<notin> deleted (active_segment s)) (records (active_segment s))"

text \<open>
  The store after its active segment has been sealed: what \<open>flush_active_segment_locked\<close>
  leaves when the write succeeds.
\<close>

definition sealed_store :: "IcebergStore \<Rightarrow> IcebergStore" where
  "sealed_store s =
     commit_snapshot
       (s\<lparr>files := (files s)(segment_path (data_dir s) (segment_id (active_segment s))
                       \<mapsto> file_of (records (active_segment s))),
          sealed_segments := sealed_segments s @
            [\<lparr>sealed_segment_id = segment_id (active_segment s),
              filepath = segment_path (data_dir s) (segment_id (active_segment s)),
              num_records = length (records (active_segment s)),
              sealed_deleted = deleted (active_segment s)\<rparr>],
          active_segment := \<lparr>segment_id = next_segment_id s, records = [], deleted = {}\<rparr>,
          next_segment_id := next_segment_id s + 1\<rparr>)"

text \<open>
  A well-formed Arrow batch: every column that is present has \<open>num_rows\<close> entries; the
  child array of the embedding column has \<open>num_rows\<close> lists of the list size, which is
  not negative.
\<close>

definition batch_ok :: "RecordBatch \<Rightarrow> bool" where
  "batch_ok batch \<longleftrightarrow>
     (case id_column batch of
        None \<Rightarrow> True | Some ids \<Rightarrow> length ids = batch_num_rows batch)
     \<and> (case embedding_column batch of
          None \<Rightarrow> True
        | Some (list_size, floats) \<Rightarrow>
            0 \<le> list_size \<and> length floats = batch_num_rows batch * nat list_size)
     \<and> (case metadata_column batch of
          None \<Rightarrow> True | Some metas \<Rightarrow> length metas = batch_num_rows batch)"

text \<open>
  The notions of claim C5: the sealed segments that a threshold selects for rewriting
  and those it keeps, and the live rows of the selected ones.
\<close>

definition dirty_segments :: "float32 \<Rightarrow> IcebergStore \<Rightarrow> SealedSegment list" where
  "dirty_segments t s =
     filter (\<lambda>seg. ratio_reaches (tombstone_ratio seg) t) (sealed_segments s)"

definition clean_segments :: "float32 \<Rightarrow> IcebergStore \<Rightarrow> SealedSegment list" where
  "clean_segments t s =
     filter (\<lambda>seg. \<not> ratio_reaches (tombstone_ratio seg) t) (sealed_segments s)"

definition rows_to_merge :: "float32 \<Rightarrow> IcebergStore \<Rightarrow> VectorRecord list" where
  "rows_to_merge t s = concat (map (segment_live_rows s) (dirty_segments t s))"

text \<open>
  The store after a compaction that meets no error: the files of the rewritten segments
  are gone, and when they had live rows these are in one new file and one new sealed
  segment, appended to the segments that were kept.
\<close>

definition compacted_store :: "float32 \<Rightarrow> IcebergStore \<Rightarrow> IcebergStore" where
  "compacted_store t s =
     (let gone = (\<lambda>p. if p \<in> filepath ` set (dirty_segments t s) then None else files s p);
          to_merge = rows_to_merge t s;
          path = segment_path (data_dir s) (next_segment_id s)
      in if to_merge = []
         then commit_snapshot (s\<lparr>files := gone, sealed_segments := clean_segments t s\<rparr>)
         else commit_snapshot
                (s\<lparr>files := gone(path \<mapsto> file_of to_merge),
                   next_segment_id := next_segment_id s + 1,
                   sealed_segments := clean_segments t s @
                     [\<lparr>sealed_segment_id = next_segment_id s, filepath = path,
                       num_records = length to_merge, sealed_deleted = {}\<rparr>]\<rparr>))"

text \<open>
  In how many segments an id is present: the active segment if one of its records
  has the id, and every sealed segment whose file has a row with the id.
\<close>

definition holds_id :: "IcebergStore \<Rightarrow> u64 \<Rightarrow> SealedSegment \<Rightarrow> bool" where
  "holds_id s i seg =
     (case files s (filepath seg) of None \<Rightarrow> False | Some f \<Rightarrow> i \<in> set (id_col f))"

definition segments_holding :: "IcebergStore \<Rightarrow> u64 \<Rightarrow> nat" where
  "segments_holding s i =
     (if i \<in> rec_id ` set (records (active_segment s)) then 1 else 0)
     + length (filter (holds_id s i) (sealed_segments s))"

text \<open>
  Sequences of the public operations that change a store. Each operation comes with
  the reading of the wall clock during it. The two buffers of a bulk insert must hold
  the \<open>count\<close> rows the caller announces (\<open>op_ok\<close>); the source reads them unchecked.
\<close>

datatype store_op =
    OpInsert u64 "float list" string
  | OpBulkInsert "u64 list" "float list" nat nat
  | OpDelete u64
  | OpFlush
  | OpCompact float32

fun op_ok :: "store_op \<Rightarrow> bool" where
  "op_ok (OpBulkInsert ids vectors count d) = (count \<le> length ids \<and> count * d \<le> length vectors)"
| "op_ok other = True"

fun apply_op :: "store_op \<Rightarrow> IcebergStore \<Rightarrow> IcebergStore" where
  "apply_op (OpInsert i emb meta) s = snd (store_insert i emb meta s)"
| "apply_op (OpBulkInsert ids vectors count d) s = snd (bulk_insert ids vectors count d s)"
| "apply_op (OpDelete i) s = delete_vector i s"
| "apply_op OpFlush s = snd (flush s)"
| "apply_op (OpCompact t) s = snd (store_compact t s)"

fun run_ops :: "(int \<times> store_op) list \<Rightarrow> IcebergStore \<Rightarrow> IcebergStore" where
  "run_ops [] s = s"
| "run_ops ((now, x) # xs) s = run_ops xs (apply_op x (s\<lparr>clock := now\<rparr>))"

text \<open>Every delete of the sequence finds its id among the active records.\<close>

fun deletes_hit_active :: "(int \<times> store_op) list \<Rightarrow> IcebergStore \<Rightarrow> bool" where
  "deletes_hit_active [] s = True"
| "deletes_hit_active ((now, x) # xs) s =
     ((case x of OpDelete i \<Rightarrow> found_in_active i (records (active_segment s)) | _ \<Rightarrow> True)
      \<and> deletes_hit_active xs (apply_op x (s\<lparr>clock := now\<rparr>)))"

text \<open>
  The representation invariant of a store with a positive dimension: the active records
  have embeddings of length \<open>dim\<close>; every sealed segment has the file of its id, with
  \<open>num_records\<close> well-formed rows; segment ids are distinct and below the next id.
\<close>

definition file_ok :: "nat \<Rightarrow> parquet_file \<Rightarrow> bool" where
  "file_ok d f \<longleftrightarrow>
     length (embedding_floats f) = num_rows f * d \<and> length (metadata_col f) = num_rows f"

definition sealed_ok :: "IcebergStore \<Rightarrow> SealedSegment \<Rightarrow> bool" where
  "sealed_ok s seg \<longleftrightarrow>
     filepath seg = segment_path (data_dir s) (sealed_segment_id seg)
     \<and> sealed_segment_id seg < next_segment_id s
     \<and> (case files s (filepath seg) of
          None \<Rightarrow> False
        | Some f \<Rightarrow> file_ok (dim s) f \<and> num_rows f = num_records seg)"

definition store_inv :: "IcebergStore \<Rightarrow> bool" where
  "store_inv s \<longleftrightarrow>
     0 < dim s
     \<and> list_all (\<lambda>r. length (embedding r) = dim s) (records (active_segment s))
     \<and> list_all (sealed_ok s) (sealed_segments s)
     \<and> distinct (map sealed_segment_id (sealed_segments s))
     \<and> segment_id (active_segment s) < next_segment_id s
     \<and> segment_id (active_segment s) \<notin> sealed_segment_id ` set (sealed_segments s)"

text \<open>
  The two facts about the sealed segments of a store that the properties below follow
  through the operations: every sealed segment has records; and the tombstones of the
  active segment are ids of its records and no sealed segment has more tombstones than
  records.
\<close>

definition sealed_nonempty :: "IcebergStore \<Rightarrow> bool" where
  "sealed_nonempty s \<longleftrightarrow> list_all (\<lambda>seg. 0 < num_records seg) (sealed_segments s)"

definition tombstones_bounded :: "IcebergStore \<Rightarrow> bool" where
  "tombstones_bounded s \<longleftrightarrow>
     deleted (active_segment s) \<subseteq> rec_id ` set (records (active_segment s))
     \<and> list_all (\<lambda>seg. card (sealed_deleted seg) \<le> num_records seg) (sealed_segments s)"

text \<open>
  The number of live records as a natural number, for the stores in which no segment
  has more tombstones than records: what \<open>total_live_records\<close> computes when no
  subtraction or sum wraps around.
\<close>

definition live_total :: "IcebergStore \<Rightarrow> nat" where
  "live_total s =
     (length (records (active_segment s)) - card (deleted (active_segment s)))
     + sum_list (map (\<lambda>seg. num_records seg - card (sealed_deleted seg)) (sealed_segments s))"

section \<open>Example stores\<close>

text \<open>
  A store of dimension 2 and capacity 3 after four inserts (the third seals segment 0)
  and two deletes: id 2 is absent from the active segment, id 4 is in it.
\<close>

definition demo_store :: IcebergStore where
  "demo_store =
     run_ops [(1, OpInsert 1 [1, 2] ''a''), (2, OpInsert 2 [3, 4] ''b''),
              (3, OpInsert 3 [5, 6] ''c''), (4, OpInsert 4 [7, 8] ''d''),
              (5, OpDelete 2), (6, OpDelete 4)]
       (open_store 2 3 ''/tmp/vectordb'' Map.empty 0)"

text \<open>
  A store of dimension 1 and capacity 1 after two inserts: two sealed segments of one
  record each, ids 1 and 2, and an empty active segment.
\<close>

definition two_sealed_store :: IcebergStore where
  "two_sealed_store =
     run_ops [(1, OpInsert 1 [0] ''''), (2, OpInsert 2 [0] '''')]
       (open_store 1 1 ''/tmp/vectordb'' Map.empty 0)"


text \<open>
  The default threshold of \<open>compact\<close> and of \<open>compact_and_rebuild\<close>: the literal \<open>0.3f\<close>,
  the float nearest to \<open>3 / 10\<close>.
\<close>

definition default_threshold :: float32 where
  "default_threshold = Finite (10066330 / 2 ^ 25)"


section \<open>Example engine\<close>

text \<open>
  What \<open>HNSWIndex::search\<close> returns on an index that holds exactly one vector: the entry
  point is node 0, it has no neighbours, and \<open>search_layer\<close> at layer 0 returns it alone;
  its distance is the square root of \<open>distance_sq\<close>. An empty index returns nothing. (This
  function stands for the index's search only on indexes of at most one vector.)
\<close>

definition distance_sq :: "float list \<Rightarrow> float list \<Rightarrow> float" where
  "distance_sq a b = foldl (\<lambda>sum (x, y). sum + (x - y) * (x - y)) 0 (zip a b)"

definition search_of_single_node :: "HNSWIndex \<Rightarrow> float list \<Rightarrow> nat \<Rightarrow> SearchResult list" where
  "search_of_single_node h query k =
     (case hnsw_vectors h of
        [v] \<Rightarrow> [\<lparr>sr_distance = sqrt (distance_sq query v), sr_id = 0\<rparr>]
      | _ \<Rightarrow> [])"

text \<open>An engine of dimension 2 with the defaults, after one insert.\<close>

definition demo_db :: VectorDB where
  "demo_db = snd (vdb_insert 7 [1, 2] ''a'' (vectordb_new 2 16 200 50 1000 Map.empty 0))"

text \<open>
  A store of dimension 1 and capacity 1 after one insert (sealed at once) and two
  deletes of ids that no record has.
\<close>

definition missed_deletes_store :: IcebergStore where
  "missed_deletes_store =
     run_ops [(1, OpInsert 1 [0] ''''), (2, OpDelete 7), (3, OpDelete 8)]
       (open_store 1 1 ''/tmp/vectordb'' Map.empty 0)"

text \<open>
  An engine of dimension 2 and capacity 3, freshly constructed, and a batch of four
  rows with a metadata column.
\<close>

definition fresh_db :: VectorDB where
  "fresh_db = vectordb_new 2 16 200 50 3 Map.empty 0"

definition demo_batch :: RecordBatch where
  "demo_batch =
     \<lparr>batch_num_rows = 4,
      id_column = Some [10, 11, 12, 13],
      embedding_column = Some (2, [1, 2, 3, 4, 5, 6, 7, 8]),
      metadata_column = Some [''w'', ''x'', ''y'', ''z'']\<rparr>"

text \<open>
  An engine of dimension 2 and capacity 2 configured with \<open>M = 8\<close>, \<open>ef_construct = 100\<close>,
  \<open>ef_search = 20\<close>, after two inserts (which seal segment 0), the delete of id 1 and
  a third insert.
\<close>

definition rebuild_db :: VectorDB where
  "rebuild_db =
     snd (vdb_insert 3 [3, 3] ''c''
       (vdb_delete_vector 1
         (snd (vdb_insert 2 [2, 2] ''b''
           (snd (vdb_insert 1 [1, 1] ''a''
             (vectordb_new 2 8 100 20 2 Map.empty 0)))))))"

text \<open>The store of that engine, as a sequence of store operations.\<close>

definition rebuild_store :: IcebergStore where
  "rebuild_store =
     run_ops [(0, OpInsert 1 [1, 1] ''a''), (0, OpInsert 2 [2, 2] ''b''), (0, OpDelete 1),
              (0, OpInsert 3 [3, 3] ''c'')]
       (open_store 2 2 ''/tmp/vectordb'' Map.empty 0)"

section \<open>Properties\<close>

subsection \<open>Evaluation of the example stores\<close>

lemmas store_eval =
  open_store_def commit_snapshot_def store_insert_def push_record_def
  flush_active_segment_locked_def flush_def write_parquet_def delete_vector_def
  segment_path_def to_string_def digits.simps digit_char_def Let_def

lemma demo_store_sealed:
  "sealed_segments demo_store =
     [\<lparr>sealed_segment_id = 0, filepath = ''/tmp/vectordb/segment_0.parquet'',
       num_records = 3, sealed_deleted = {2}\<rparr>]"
  by (simp add: demo_store_def store_eval)

lemma demo_store_active:
  "active_segment demo_store =
     \<lparr>segment_id = 1,
      records = [\<lparr>rec_id = 4, embedding = [7, 8], metadata = ''d''\<rparr>],
      deleted = {4}\<rparr>"
  by (simp add: demo_store_def store_eval)

lemma demo_store_file:
  "files demo_store ''/tmp/vectordb/segment_0.parquet'' =
     Some \<lparr>id_col = [1, 2, 3], embedding_floats = [1, 2, 3, 4, 5, 6],
           metadata_col = [''a'', ''b'', ''c'']\<rparr>"
  by (simp add: demo_store_def store_eval)

lemma demo_store_dim: "dim demo_store = 2"
  by (simp add: demo_store_def store_eval)

subsection \<open>Reading a file and scanning the store\<close>

lemma rec_id_file_row [simp]: "rec_id (file_row d f i) = id_col f ! i"
  by (simp add: file_row_def)

lemma read_rows_from:
  "read_rows d f del i acc =
     acc @ filter (\<lambda>r. rec_id r \<notin> del) (map (file_row d f) [i..<num_rows f])"
proof (induction d f del i acc rule: read_rows.induct)
  case (1 d f del i result)
  show ?case
  proof (cases "i < num_rows f")
    case True
    then have up: "[i..<num_rows f] = i # [i + 1..<num_rows f]"
      by (simp add: upt_conv_Cons)
    show ?thesis
    proof (cases "id_col f ! i \<in> del")
      case True
      with \<open>i < num_rows f\<close> "1.IH"(2) up show ?thesis
        by (subst read_rows.simps) simp
    next
      case False
      with \<open>i < num_rows f\<close> "1.IH"(1) up show ?thesis
        by (subst read_rows.simps) simp
    qed
  next
    case False
    then show ?thesis by (subst read_rows.simps) simp
  qed
qed

lemma read_rows_live: "read_rows d f del 0 [] = live_rows d f del"
  by (simp add: read_rows_from live_rows_def file_rows_def)

lemma read_parquet_eq:
  "read_parquet d fs path del =
     (case fs path of None \<Rightarrow> Inl IOError | Some f \<Rightarrow> Inr (live_rows d f del))"
  by (simp add: read_parquet_def read_rows_live split: option.splits)

lemma scan_sealed_eq:
  "scan_sealed d fs segs acc =
     (if \<forall>seg \<in> set segs. fs (filepath seg) \<noteq> None
      then Inr (acc @ concat (map (\<lambda>seg. live_rows d (the (fs (filepath seg)))
                                           (sealed_deleted seg)) segs))
      else Inl IOError)"
proof (induction segs arbitrary: acc)
  case Nil
  show ?case by simp
next
  case (Cons seg segs)
  show ?case
  proof (cases "fs (filepath seg)")
    case None
    then show ?thesis by (simp add: read_parquet_eq)
  next
    case (Some f)
    then show ?thesis by (simp add: read_parquet_eq Cons.IH)
  qed
qed

lemma scan_active_eq:
  "scan_active del rs acc = acc @ filter (\<lambda>r. rec_id r \<notin> del) rs"
  by (induction rs arbitrary: acc) auto

text \<open>
  Claim C1. In every store state \<open>scan_all\<close> returns exactly the live records: for each
  sealed segment, in the order of \<open>sealed_segments_\<close> (the order of sealing), the rows of
  its file whose id is not in the segment's tombstone set, followed by the records of
  the active segment, in insertion order, whose id is not in the active tombstone set.
  This is the result whenever every sealed segment's file can be opened; when one
  cannot, \<open>scan_all\<close> throws the I/O error.
\<close>

theorem scan_all_live_records:
  "scan_all s =
     (if \<forall>seg \<in> set (sealed_segments s). files s (filepath seg) \<noteq> None
      then Inr (concat (map (\<lambda>seg. filter (\<lambda>r. rec_id r \<notin> sealed_deleted seg)
                                      (file_rows (dim s) (the (files s (filepath seg)))))
                            (sealed_segments s))
                @ filter (\<lambda>r. rec_id r \<notin> deleted (active_segment s))
                         (records (active_segment s)))
      else Inl IOError)"
  by (simp add: scan_all_def scan_sealed_eq scan_active_eq live_rows_def)

theorem scan_all_live_records_witness:
  "list_all (\<lambda>seg. files demo_store (filepath seg) \<noteq> None) (sealed_segments demo_store)
   \<and> scan_all demo_store =
       Inr [\<lparr>rec_id = 1, embedding = [1, 2], metadata = ''a''\<rparr>,
            \<lparr>rec_id = 3, embedding = [5, 6], metadata = ''c''\<rparr>]"
  by (subst scan_all_live_records)
     (simp add: demo_store_sealed demo_store_active demo_store_file demo_store_dim
        file_rows_def file_row_def num_rows_def)

subsection \<open>Delete\<close>

lemma found_in_active_iff: "found_in_active i rs \<longleftrightarrow> i \<in> rec_id ` set rs"
  by (induction rs) auto

lemma tombstone_sealed_map:
  "tombstone_sealed i segs =
     map (\<lambda>seg. seg\<lparr>sealed_deleted := insert i (sealed_deleted seg)\<rparr>) segs"
  by (induction segs) auto

text \<open>
  Claim C2. \<open>delete(id)\<close> is an either-or. If the id occurs among the records of the
  active segment, it is added to the active tombstone set and the tombstone set of
  every sealed segment is unchanged; otherwise it is added to the tombstone set of
  every sealed segment and the active tombstone set is unchanged. In both cases the
  records of the active segment and \<open>num_records\<close> of every sealed segment are
  unchanged.
\<close>

theorem delete_vector_either_or:
  "(i \<in> rec_id ` set (records (active_segment s)) \<longrightarrow>
      deleted (active_segment (delete_vector i s)) = insert i (deleted (active_segment s))
      \<and> map sealed_deleted (sealed_segments (delete_vector i s))
          = map sealed_deleted (sealed_segments s))
   \<and> (i \<notin> rec_id ` set (records (active_segment s)) \<longrightarrow>
      map sealed_deleted (sealed_segments (delete_vector i s))
          = map (\<lambda>seg. insert i (sealed_deleted seg)) (sealed_segments s)
      \<and> deleted (active_segment (delete_vector i s)) = deleted (active_segment s))
   \<and> records (active_segment (delete_vector i s)) = records (active_segment s)
   \<and> map num_records (sealed_segments (delete_vector i s))
       = map num_records (sealed_segments s)"
  by (simp add: delete_vector_def found_in_active_iff tombstone_sealed_map comp_def)

theorem delete_vector_either_or_witness:
  "4 \<in> rec_id ` set (records (active_segment demo_store))
   \<and> deleted (active_segment (delete_vector 4 demo_store)) = {4}
   \<and> map sealed_deleted (sealed_segments (delete_vector 4 demo_store)) = [{2}]
   \<and> 9 \<notin> rec_id ` set (records (active_segment demo_store))
   \<and> map sealed_deleted (sealed_segments (delete_vector 9 demo_store)) = [{9, 2}]
   \<and> deleted (active_segment (delete_vector 9 demo_store)) = {4}"
  using delete_vector_either_or [of 4 demo_store] delete_vector_either_or [of 9 demo_store]
  by (simp add: demo_store_sealed demo_store_active)

subsection \<open>Cosine similarity\<close>

lemma foldl_indices_zip:
  "length x = length y \<Longrightarrow>
   foldl (\<lambda>acc i. g acc (x ! i) (y ! i)) z [0..<length x]
     = foldl (\<lambda>acc (u, v). g acc u v) z (zip x y)"
proof (induction x y arbitrary: z rule: list_induct2)
  case Nil
  then show ?case by simp
next
  case (Cons u x v y)
  have "[0..<length (u # x)] = 0 # map Suc [0..<length x]"
    by (simp add: upt_conv_Cons map_Suc_upt del: upt_Suc)
  then show ?case
    using Cons.IH [of "g z u v"] by (simp add: foldl_map del: upt_Suc)
qed

lemma inner_spec_zip:
  "length x = length y \<Longrightarrow>
   inner_spec ops x y = foldl (\<lambda>acc (u, v). f_mul_add ops acc u v) (f_zero ops) (zip x y)"
  unfolding inner_spec_def by (rule foldl_indices_zip)

lemma cosine_sums_eq:
  "length a = length b \<Longrightarrow>
   cosine_sums ops a b (dot, na, nb) =
     Some (foldl (\<lambda>acc (u, v). f_mul_add ops acc u v) dot (zip a b),
           foldl (\<lambda>acc (u, v). f_mul_add ops acc u v) na (zip a a),
           foldl (\<lambda>acc (u, v). f_mul_add ops acc u v) nb (zip b b))"
  by (induction a b arbitrary: dot na nb rule: list_induct2) simp_all

lemma inner_spec_exact: "inner_spec exact_arith x y = (\<Sum>i < length x. x ! i * y ! i)"
proof -
  have "foldl (\<lambda>acc i. acc + x ! i * y ! i) z [0..<n] = z + (\<Sum>i < n. x ! i * y ! i)"
    for z :: real and n
    by (induction n arbitrary: z) simp_all
  from this [of 0 "length x"] show ?thesis
    by (simp add: inner_spec_def exact_arith_def)
qed

text \<open>
  Claim C8, as the code has it. For vectors \<open>x\<close> and \<open>y\<close> of equal length, in whatever
  float arithmetic the function is run, the cosine similarity of the re-ranking is
  \<open>inner(x,y) / (\<surd>inner(x,x) \<sqdot> \<surd>inner(y,y))\<close> when the product of the two norms compares
  greater than the literal \<open>1e-10f\<close>, and 0 otherwise; here \<open>inner\<close> accumulates the
  products in index order, and the quotient, the product and the roots are those of the
  arithmetic. The guard is on the product of the norms, not on each norm.
\<close>

theorem cosine_sim_guarded:
  "length a = length b \<Longrightarrow>
   cosine_sim ops a b =
     Some (if f_greater ops
                (f_mul ops (f_sqrt ops (inner_spec ops a a)) (f_sqrt ops (inner_spec ops b b)))
                (f_guard ops)
           then f_div ops (inner_spec ops a b)
                  (f_mul ops (f_sqrt ops (inner_spec ops a a))
                     (f_sqrt ops (inner_spec ops b b)))
           else f_zero ops)"
  by (simp add: cosine_sim_def cosine_sums_eq inner_spec_zip)

lemma binary32_fields [simp]:
  "f_zero binary32 = Finite 0" "f_guard binary32 = Finite (14411519 / 2 ^ 57)"
  "f_mul_add binary32 acc x y = f32_add acc (f32_mul x y)" "f_sqrt binary32 = f32_sqrt"
  "f_mul binary32 = f32_mul" "f_div binary32 = f32_div" "f_greater binary32 = f32_greater"
  by (simp_all add: binary32_def)

lemmas round32_eval =
  round32_def nearest_float_def last_bit_exponent_def round_to_even_def pow2_def
  bit_length.simps Let_def

lemma sqrt_squares:
  "sqrt 25 = 5" "sqrt 100 = 10"
  "sqrt (1 / 2 ^ 80) = 1 / 2 ^ 40" "sqrt (2 ^ 40) = 2 ^ 20"
proof -
  have "sqrt (5\<^sup>2) = 5" "sqrt (10\<^sup>2) = 10" "sqrt ((1 / 2 ^ 40)\<^sup>2) = 1 / 2 ^ 40"
    "sqrt ((2 ^ 20)\<^sup>2) = 2 ^ 20"
    by (simp_all only: real_sqrt_abs) simp_all
  then show "sqrt 25 = 5" "sqrt 100 = 10"
    "sqrt (1 / 2 ^ 80) = 1 / 2 ^ 40" "sqrt (2 ^ 40) = 2 ^ 20"
    by (simp_all add: power_divide)
qed

lemma f32_sqrt_values:
  "f32_sqrt (Finite 25) = Finite 5" "f32_sqrt (Finite 100) = Finite 10"
  "f32_sqrt (Finite (1 / 2 ^ 80)) = Finite (1 / 2 ^ 40)"
  "f32_sqrt (Finite (2 ^ 40)) = Finite (2 ^ 20)"
  unfolding f32_sqrt.simps sqrt_squares by (simp_all add: round32_eval)

lemma inner_spec_examples:
  "inner_spec binary32 [Finite 3, Finite 4] [Finite 6, Finite 8] = Finite 50"
  "inner_spec binary32 [Finite 3, Finite 4] [Finite 3, Finite 4] = Finite 25"
  "inner_spec binary32 [Finite 6, Finite 8] [Finite 6, Finite 8] = Finite 100"
  "inner_spec binary32 [Finite (1 / 2 ^ 40)] [Finite (2 ^ 20)] = Finite (1 / 2 ^ 20)"
  "inner_spec binary32 [Finite (1 / 2 ^ 40)] [Finite (1 / 2 ^ 40)] = Finite (1 / 2 ^ 80)"
  "inner_spec binary32 [Finite (2 ^ 20)] [Finite (2 ^ 20)] = Finite (2 ^ 40)"
  by (simp_all add: inner_spec_def round32_eval)

theorem cosine_sim_guarded_witness:
  "length [Finite 3, Finite 4] = length [Finite 6, Finite 8]
   \<and> inner_spec binary32 [Finite 3, Finite 4] [Finite 6, Finite 8] = Finite 50
   \<and> f32_sqrt (inner_spec binary32 [Finite 3, Finite 4] [Finite 3, Finite 4]) = Finite 5
   \<and> f32_sqrt (inner_spec binary32 [Finite 6, Finite 8] [Finite 6, Finite 8]) = Finite 10
   \<and> cosine_sim binary32 [Finite 3, Finite 4] [Finite 6, Finite 8] = Some (Finite 1)"
proof -
  have len: "length [Finite 3, Finite 4] = length [Finite 6, Finite 8]" by simp
  have "cosine_sim binary32 [Finite 3, Finite 4] [Finite 6, Finite 8] = Some (Finite 1)"
    unfolding cosine_sim_guarded [OF len] inner_spec_examples binary32_fields f32_sqrt_values
    by (simp add: round32_eval)
  then show ?thesis
    by (simp only: inner_spec_examples f32_sqrt_values list.size simp_thms)
qed

text \<open>
  The claim as stated fails: \<open>x = [2\<^sup>-\<^sup>4\<^sup>0]\<close> has the norm \<open>2\<^sup>-\<^sup>4\<^sup>0\<close>, below \<open>10\<^sup>-\<^sup>1\<^sup>0\<close>, and
  with \<open>y = [2\<^sup>2\<^sup>0]\<close> the product of the norms is \<open>2\<^sup>-\<^sup>2\<^sup>0\<close>, above the guard; the result
  is 1, not 0. Every value that occurs (\<open>2\<^sup>-\<^sup>2\<^sup>0\<close>, \<open>2\<^sup>-\<^sup>8\<^sup>0\<close>, \<open>2\<^sup>4\<^sup>0\<close>, \<open>2\<^sup>-\<^sup>4\<^sup>0\<close>, \<open>2\<^sup>2\<^sup>0\<close>, 1) is a
  power of two in the normal range of a \<open>float\<close>, so no operation rounds.
\<close>

theorem cosine_sim_small_norm_counterexample:
  "length [Finite (1 / 2 ^ 40)] = length [Finite (2 ^ 20)]
   \<and> f32_sqrt (inner_spec binary32 [Finite (1 / 2 ^ 40)] [Finite (1 / 2 ^ 40)])
       = Finite (1 / 2 ^ 40)
   \<and> (1 / 2 ^ 40 :: real) < 1 / 10 ^ 10
   \<and> f32_greater (f_guard binary32) (Finite (1 / 2 ^ 40))
   \<and> cosine_sim binary32 [Finite (1 / 2 ^ 40)] [Finite (2 ^ 20)] = Some (Finite 1)"
proof -
  have sums: "cosine_sums binary32 [Finite (1 / 2 ^ 40)] [Finite (2 ^ 20)]
                (f_zero binary32, f_zero binary32, f_zero binary32)
              = Some (Finite (1 / 2 ^ 20), Finite (1 / 2 ^ 80), Finite (2 ^ 40))"
    by (simp add: round32_eval)
  have "cosine_sim binary32 [Finite (1 / 2 ^ 40)] [Finite (2 ^ 20)] = Some (Finite 1)"
    unfolding cosine_sim_def sums
    by (simp only: option.case prod.case Let_def binary32_fields f32_sqrt_values)
      (simp add: round32_eval)
  moreover
  have "f32_sqrt (inner_spec binary32 [Finite (1 / 2 ^ 40)] [Finite (1 / 2 ^ 40)])
       = Finite (1 / 2 ^ 40)"
    by (simp only: inner_spec_examples f32_sqrt_values)
  moreover
  have "(1 / 2 ^ 40 :: real) < 1 / 10 ^ 10"
    and "f32_greater (f_guard binary32) (Finite (1 / 2 ^ 40))"
    by simp_all
  ultimately show ?thesis
    by (simp only: list.size simp_thms)
qed

text \<open>
  Where a sum of squares overflows the result is a NaN: the squares of \<open>2\<^sup>6\<^sup>4\<close> are
  infinite, so are the norms and their product, and the quotient of two infinities is a
  NaN.
\<close>

lemma cosine_sim_overflow:
  "cosine_sim binary32 [Finite (2 ^ 64)] [Finite (2 ^ 64)] = Some NotANumber"
  by (simp add: cosine_sim_def round32_eval signed_infinity_def)

subsection \<open>Insert\<close>

lemma length_concat_embeddings:
  "list_all (\<lambda>r. length (embedding r) = d) rs \<Longrightarrow>
   length (concat (map embedding rs)) = length rs * d"
  by (induction rs) simp_all

lemma flush_error:
  "fst (flush_active_segment_locked s) = Inl e \<Longrightarrow> e = NotDivisibleByDim"
  by (auto simp: flush_active_segment_locked_def write_parquet_def Let_def
      split: if_splits sum.splits)

text \<open>
  Claim C6. \<open>insert\<close> throws the dimension-mismatch error if and only if the length of
  the embedding differs from \<open>dim\<close>, and then the store is unchanged. When it returns,
  the record has been appended to the active segment, and the active segment has been
  sealed if and only if its record count, with the new record, has reached
  \<open>segment_capacity\<close>: then the sealed segment (with the file of all the records and the
  active tombstone set) is appended to the sealed segments and the active segment is
  fresh and empty; otherwise the sealed segments and the files are unchanged. It does
  return when the length matches, \<open>dim\<close> is positive and the active records have
  embeddings of length \<open>dim\<close>.
\<close>

theorem store_insert_spec:
  "(fst (store_insert i emb meta s) = Inl DimensionMismatch \<longleftrightarrow> length emb \<noteq> dim s)
   \<and> (length emb \<noteq> dim s \<longrightarrow> snd (store_insert i emb meta s) = s)
   \<and> (fst (store_insert i emb meta s) = Inr () \<longrightarrow>
        (let recs = records (active_segment s)
                      @ [\<lparr>rec_id = i, embedding = emb, metadata = meta\<rparr>];
             path = segment_path (data_dir s) (segment_id (active_segment s));
             s' = snd (store_insert i emb meta s)
         in if segment_capacity s \<le> length recs
            then sealed_segments s' =
                   sealed_segments s @
                     [\<lparr>sealed_segment_id = segment_id (active_segment s), filepath = path,
                       num_records = length recs,
                       sealed_deleted = deleted (active_segment s)\<rparr>]
                 \<and> active_segment s' =
                     \<lparr>segment_id = next_segment_id s, records = [], deleted = {}\<rparr>
                 \<and> files s' path =
                     Some \<lparr>id_col = map rec_id recs,
                           embedding_floats = concat (map embedding recs),
                           metadata_col = map metadata recs\<rparr>
            else sealed_segments s' = sealed_segments s
                 \<and> active_segment s' = (active_segment s)\<lparr>records := recs\<rparr>
                 \<and> files s' = files s))
   \<and> (length emb = dim s \<and> 0 < dim s
        \<and> list_all (\<lambda>r. length (embedding r) = dim s) (records (active_segment s))
        \<longrightarrow> fst (store_insert i emb meta s) = Inr ())"
proof (intro conjI impI)
  show "(fst (store_insert i emb meta s) = Inl DimensionMismatch) = (length emb \<noteq> dim s)"
    by (auto simp: store_insert_def Let_def dest: flush_error)
next
  assume "length emb \<noteq> dim s"
  then show "snd (store_insert i emb meta s) = s"
    by (simp add: store_insert_def)
next
  assume ok: "fst (store_insert i emb meta s) = Inr ()"
  then have len: "length emb = dim s"
    by (auto simp: store_insert_def split: if_splits)
  show "let recs = records (active_segment s)
                      @ [\<lparr>rec_id = i, embedding = emb, metadata = meta\<rparr>];
             path = segment_path (data_dir s) (segment_id (active_segment s));
             s' = snd (store_insert i emb meta s)
         in if segment_capacity s \<le> length recs
            then sealed_segments s' =
                   sealed_segments s @
                     [\<lparr>sealed_segment_id = segment_id (active_segment s), filepath = path,
                       num_records = length recs,
                       sealed_deleted = deleted (active_segment s)\<rparr>]
                 \<and> active_segment s' =
                     \<lparr>segment_id = next_segment_id s, records = [], deleted = {}\<rparr>
                 \<and> files s' path =
                     Some \<lparr>id_col = map rec_id recs,
                           embedding_floats = concat (map embedding recs),
                           metadata_col = map metadata recs\<rparr>
            else sealed_segments s' = sealed_segments s
                 \<and> active_segment s' = (active_segment s)\<lparr>records := recs\<rparr>
                 \<and> files s' = files s"
    using ok len
    by (auto simp: store_insert_def Let_def push_record_def flush_active_segment_locked_def
        write_parquet_def commit_snapshot_def split: if_splits sum.splits)
next
  assume h: "length emb = dim s \<and> 0 < dim s
        \<and> list_all (\<lambda>r. length (embedding r) = dim s) (records (active_segment s))"
  then have "length (concat (map embedding (records (active_segment s)))) mod dim s = 0"
    using length_concat_embeddings [of "dim s" "records (active_segment s)"] by simp
  with h show "fst (store_insert i emb meta s) = Inr ()"
    by (simp add: store_insert_def Let_def push_record_def flush_active_segment_locked_def
        write_parquet_def commit_snapshot_def)
qed

lemma two_sealed_store_active:
  "active_segment two_sealed_store = \<lparr>segment_id = 2, records = [], deleted = {}\<rparr>"
  by (simp add: two_sealed_store_def store_eval)

lemma two_sealed_store_consts:
  "dim two_sealed_store = 1" "segment_capacity two_sealed_store = 1"
  "data_dir two_sealed_store = ''/tmp/vectordb''" "next_segment_id two_sealed_store = 3"
  by (simp_all add: two_sealed_store_def store_eval)

lemma demo_store_consts:
  "segment_capacity demo_store = 3" "data_dir demo_store = ''/tmp/vectordb''"
  "next_segment_id demo_store = 2"
  by (simp_all add: demo_store_def store_eval)

theorem store_insert_spec_witness:
  "length [5, 5 :: real] \<noteq> dim two_sealed_store
   \<and> fst (store_insert 3 [5, 5] ''x'' two_sealed_store) = Inl DimensionMismatch
   \<and> snd (store_insert 3 [5, 5] ''x'' two_sealed_store) = two_sealed_store
   \<and> length [5 :: real] = dim two_sealed_store
   \<and> fst (store_insert 3 [5] ''x'' two_sealed_store) = Inr ()
   \<and> segment_capacity two_sealed_store \<le> length (records (active_segment two_sealed_store)) + 1
   \<and> sealed_segments (snd (store_insert 3 [5] ''x'' two_sealed_store)) =
       sealed_segments two_sealed_store @
         [\<lparr>sealed_segment_id = 2, filepath = ''/tmp/vectordb/segment_2.parquet'',
           num_records = 1, sealed_deleted = {}\<rparr>]
   \<and> active_segment (snd (store_insert 3 [5] ''x'' two_sealed_store)) =
       \<lparr>segment_id = 3, records = [], deleted = {}\<rparr>
   \<and> length [5, 5 :: real] = dim demo_store
   \<and> fst (store_insert 3 [5, 5] ''x'' demo_store) = Inr ()
   \<and> \<not> segment_capacity demo_store \<le> length (records (active_segment demo_store)) + 1
   \<and> sealed_segments (snd (store_insert 3 [5, 5] ''x'' demo_store)) = sealed_segments demo_store
   \<and> records (active_segment (snd (store_insert 3 [5, 5] ''x'' demo_store))) =
       records (active_segment demo_store)
         @ [\<lparr>rec_id = 3, embedding = [5, 5], metadata = ''x''\<rparr>]"
proof -
  have a: "length [5, 5 :: real] \<noteq> dim two_sealed_store"
    by (simp add: two_sealed_store_consts)
  have b: "length [5 :: real] = dim two_sealed_store \<and> 0 < dim two_sealed_store
     \<and> list_all (\<lambda>r. length (embedding r) = dim two_sealed_store)
          (records (active_segment two_sealed_store))"
    by (simp add: two_sealed_store_consts two_sealed_store_active)
  have c: "length [5, 5 :: real] = dim demo_store \<and> 0 < dim demo_store
     \<and> list_all (\<lambda>r. length (embedding r) = dim demo_store)
          (records (active_segment demo_store))"
    by (simp add: demo_store_dim demo_store_active)
  note t1 = store_insert_spec [of 3 "[5, 5]" "''x''" two_sealed_store]
  note t2 = store_insert_spec [of 3 "[5]" "''x''" two_sealed_store]
  note t3 = store_insert_spec [of 3 "[5, 5]" "''x''" demo_store]
  have r1: "fst (store_insert 3 [5, 5] ''x'' two_sealed_store) = Inl DimensionMismatch"
    "snd (store_insert 3 [5, 5] ''x'' two_sealed_store) = two_sealed_store"
    using t1 a by blast+
  have ok2: "fst (store_insert 3 [5] ''x'' two_sealed_store) = Inr ()"
    using t2 b by blast
  have ok3: "fst (store_insert 3 [5, 5] ''x'' demo_store) = Inr ()"
    using t3 c by blast
  have r2: "sealed_segments (snd (store_insert 3 [5] ''x'' two_sealed_store)) =
       sealed_segments two_sealed_store @
         [\<lparr>sealed_segment_id = 2, filepath = ''/tmp/vectordb/segment_2.parquet'',
           num_records = 1, sealed_deleted = {}\<rparr>]
     \<and> active_segment (snd (store_insert 3 [5] ''x'' two_sealed_store)) =
       \<lparr>segment_id = 3, records = [], deleted = {}\<rparr>"
    using t2 [THEN conjunct2, THEN conjunct2, THEN conjunct1, rule_format, OF ok2]
    by (simp add: two_sealed_store_active two_sealed_store_consts Let_def
        segment_path_def to_string_def digits.simps digit_char_def)
  have r3: "sealed_segments (snd (store_insert 3 [5, 5] ''x'' demo_store)) = sealed_segments demo_store
     \<and> records (active_segment (snd (store_insert 3 [5, 5] ''x'' demo_store))) =
       records (active_segment demo_store)
         @ [\<lparr>rec_id = 3, embedding = [5, 5], metadata = ''x''\<rparr>]"
    using t3 [THEN conjunct2, THEN conjunct2, THEN conjunct1, rule_format, OF ok3]
    by (simp add: demo_store_active demo_store_consts Let_def)
  show ?thesis
    using a b c r1 ok2 ok3 r2 r3
    by (simp add: two_sealed_store_active two_sealed_store_consts demo_store_active
        demo_store_consts)
qed

subsection \<open>Counts\<close>

lemma foldl_plus_sum_list:
  "foldl (\<lambda>total seg. total + f seg) a segs = (a :: size_t) + sum_list (map f segs)"
  by (induction segs arbitrary: a) (simp_all add: add.assoc)

lemma total_records_delete: "total_records (delete_vector i s) = total_records s"
  by (simp add: total_records_def delete_vector_def foldl_plus_sum_list tombstone_sealed_map
      comp_def)

lemma card_insert_word:
  "(of_nat (card (insert i D)) :: size_t) = of_nat (card D) + (if i \<in> D then 0 else 1)"
  for D :: "u64 set"
  by (simp add: card_insert_if insert_absorb)

lemma sealed_live_count_tombstone:
  "sealed_live_count (seg\<lparr>sealed_deleted := insert i (sealed_deleted seg)\<rparr>) =
     sealed_live_count seg - (if i \<in> sealed_deleted seg then 0 else 1)"
  by (simp add: sealed_live_count_def card_insert_word)

lemma sum_live_tombstone:
  "sum_list (map sealed_live_count (tombstone_sealed i segs)) =
     sum_list (map sealed_live_count segs)
       - of_nat (length (filter (\<lambda>seg. i \<notin> sealed_deleted seg) segs))"
  by (induction segs) (simp_all add: sealed_live_count_tombstone)

lemma total_live_records_delete:
  "total_live_records (delete_vector i s) =
     (if i \<in> rec_id ` set (records (active_segment s))
      then total_live_records s - (if i \<in> deleted (active_segment s) then 0 else 1)
      else total_live_records s
             - of_nat (length (filter (\<lambda>seg. i \<notin> sealed_deleted seg) (sealed_segments s))))"
  by (simp add: total_live_records_def delete_vector_def found_in_active_iff
      foldl_plus_sum_list sum_live_tombstone live_count_def card_insert_word)

lemma card_active_deleted:
  assumes "deleted seg \<subseteq> rec_id ` set (records seg)"
  shows "card (deleted seg) \<le> length (records seg)"
proof -
  have "card (deleted seg) \<le> card (rec_id ` set (records seg))"
    using assms by (intro card_mono) simp_all
  also have "\<dots> \<le> card (set (records seg))" by (rule card_image_le) simp
  also have "\<dots> \<le> length (records seg)" by (rule card_length)
  finally show ?thesis .
qed

lemma sum_sealed_live_nat:
  "list_all (\<lambda>seg. card (sealed_deleted seg) \<le> num_records seg) segs \<Longrightarrow>
   sum_list (map sealed_live_count segs)
     = of_nat (sum_list (map (\<lambda>seg. num_records seg - card (sealed_deleted seg)) segs))"
  by (induction segs) (simp_all add: sealed_live_count_def)

lemma total_live_records_nat:
  assumes "tombstones_bounded s"
  shows "total_live_records s = of_nat (live_total s)"
  using assms card_active_deleted [of "active_segment s"]
  by (simp add: total_live_records_def foldl_plus_sum_list tombstones_bounded_def
      sum_sealed_live_nat live_total_def live_count_def)

lemma live_total_le:
  "live_total s
     \<le> length (records (active_segment s)) + sum_list (map num_records (sealed_segments s))"
  unfolding live_total_def
  by (intro add_mono sum_list_mono) simp_all

lemma unat_total_live_records:
  assumes "tombstones_bounded s"
    and "length (records (active_segment s)) + sum_list (map num_records (sealed_segments s))
           < 2 ^ 64"
  shows "unat (total_live_records s) = live_total s"
proof -
  from live_total_le [of s] assms(2) have "live_total s < 2 ^ LENGTH(64)" by simp
  then show ?thesis
    unfolding total_live_records_nat [OF assms(1)] by (simp add: unat_of_nat)
qed

lemma tombstones_bounded_before:
  assumes "tombstones_bounded (delete_vector i s)"
  shows "tombstones_bounded s"
proof -
  have "card D \<le> card (insert i D)" for D :: "u64 set"
    by (rule card_mono) auto
  then have "card (sealed_deleted seg) \<le> num_records seg"
    if "card (insert i (sealed_deleted seg)) \<le> num_records seg" for seg
    using that order_trans by blast
  with assms show ?thesis
    by (auto simp: tombstones_bounded_def delete_vector_def tombstone_sealed_map list_all_iff
        split: if_splits)
qed

lemma sum_live_nat_tombstone:
  "list_all (\<lambda>seg. card (sealed_deleted seg) \<le> num_records seg) (tombstone_sealed i segs) \<Longrightarrow>
   sum_list (map (\<lambda>seg. num_records seg - card (sealed_deleted seg)) (tombstone_sealed i segs))
     + length (filter (\<lambda>seg. i \<notin> sealed_deleted seg) segs)
   = sum_list (map (\<lambda>seg. num_records seg - card (sealed_deleted seg)) segs)"
  by (induction segs) (auto simp: card_insert_if insert_absorb split: if_splits)

lemma live_total_delete:
  assumes "tombstones_bounded (delete_vector i s)"
  shows "live_total (delete_vector i s)
           + (if i \<in> rec_id ` set (records (active_segment s))
              then (if i \<in> deleted (active_segment s) then 0 else 1)
              else length (filter (\<lambda>seg. i \<notin> sealed_deleted seg) (sealed_segments s)))
         = live_total s"
proof (cases "i \<in> rec_id ` set (records (active_segment s))")
  case True
  from assms True
  have "card (insert i (deleted (active_segment s))) \<le> length (records (active_segment s))"
    using card_active_deleted [of "active_segment (delete_vector i s)"]
    by (simp add: tombstones_bounded_def delete_vector_def found_in_active_iff)
  with True show ?thesis
    by (auto simp: live_total_def delete_vector_def found_in_active_iff card_insert_if
        insert_absorb split: if_splits)
next
  case False
  with assms
  have "list_all (\<lambda>seg. card (sealed_deleted seg) \<le> num_records seg)
          (tombstone_sealed i (sealed_segments s))"
    by (simp add: tombstones_bounded_def delete_vector_def found_in_active_iff)
  from sum_live_nat_tombstone [OF this] False show ?thesis
    by (simp add: live_total_def delete_vector_def found_in_active_iff)
qed

text \<open>
  Claim C3, as the code has it. Take a store in which, after the delete, no segment has
  more tombstones than records (the active tombstones being ids of active records), so
  that no \<open>live_count\<close> wraps around, and whose records are fewer than \<open>2 ^ 64\<close>.
  \<open>delete(id)\<close> leaves \<open>total_records\<close> unchanged. When the id occurs among the active
  records, \<open>total_live_records\<close> goes down by 1 (by 0 when the id already was in the
  active tombstone set). Otherwise it goes down by the number of sealed segments whose
  tombstone set did not hold the id yet, whether their file has the id or not. So it
  goes down by at most 1, and does not go up, when the id is in the active segment or the
  store has at most one sealed segment. The counts are compared as natural numbers.
\<close>

theorem delete_vector_counts:
  assumes "tombstones_bounded (delete_vector i s)"
    and "length (records (active_segment s)) + sum_list (map num_records (sealed_segments s))
           < 2 ^ 64"
  shows "total_records (delete_vector i s) = total_records s
   \<and> unat (total_live_records (delete_vector i s))
       + (if i \<in> rec_id ` set (records (active_segment s))
          then (if i \<in> deleted (active_segment s) then 0 else 1)
          else length (filter (\<lambda>seg. i \<notin> sealed_deleted seg) (sealed_segments s)))
       = unat (total_live_records s)
   \<and> (i \<in> rec_id ` set (records (active_segment s)) \<or> length (sealed_segments s) \<le> 1 \<longrightarrow>
        unat (total_live_records (delete_vector i s)) \<le> unat (total_live_records s)
        \<and> unat (total_live_records s) - unat (total_live_records (delete_vector i s)) \<le> 1)"
proof -
  let ?k = "if i \<in> rec_id ` set (records (active_segment s))
          then (if i \<in> deleted (active_segment s) then 0 else 1)
          else length (filter (\<lambda>seg. i \<notin> sealed_deleted seg) (sealed_segments s))"
  have same: "length (records (active_segment (delete_vector i s)))
                + sum_list (map num_records (sealed_segments (delete_vector i s)))
              = length (records (active_segment s))
                + sum_list (map num_records (sealed_segments s))"
    by (simp add: delete_vector_def tombstone_sealed_map comp_def)
  have after: "unat (total_live_records (delete_vector i s)) = live_total (delete_vector i s)"
    using assms by (intro unat_total_live_records) (simp_all only: same)
  have before: "unat (total_live_records s) = live_total s"
    using tombstones_bounded_before [OF assms(1)] assms(2) by (rule unat_total_live_records)
  have eq: "unat (total_live_records (delete_vector i s)) + ?k = unat (total_live_records s)"
    unfolding after before by (rule live_total_delete [OF assms(1)])
  have le: "?k \<le> 1"
    if "i \<in> rec_id ` set (records (active_segment s)) \<or> length (sealed_segments s) \<le> 1"
    using that
      le_trans [OF length_filter_le [of "\<lambda>seg. i \<notin> sealed_deleted seg" "sealed_segments s"]]
    by auto
  show ?thesis
  proof (intro conjI impI)
    show "total_records (delete_vector i s) = total_records s"
      by (rule total_records_delete)
    show "unat (total_live_records (delete_vector i s)) + ?k = unat (total_live_records s)"
      by (rule eq)
    assume h: "i \<in> rec_id ` set (records (active_segment s)) \<or> length (sealed_segments s) \<le> 1"
    from eq show "unat (total_live_records (delete_vector i s)) \<le> unat (total_live_records s)"
      by linarith
    from eq le [OF h]
    show "unat (total_live_records s) - unat (total_live_records (delete_vector i s)) \<le> 1"
      by linarith
  qed
qed

lemma demo_store_delete_eval:
  "tombstones_bounded (delete_vector 3 demo_store)"
  "length (records (active_segment demo_store))
     + sum_list (map num_records (sealed_segments demo_store)) = 4"
  "length (sealed_segments demo_store) = 1"
  "unat (total_live_records demo_store) = 2"
  "unat (total_live_records (delete_vector 3 demo_store)) = 1"
  by code_simp+

theorem delete_vector_counts_witness:
  "tombstones_bounded (delete_vector 3 demo_store)
   \<and> length (records (active_segment demo_store))
       + sum_list (map num_records (sealed_segments demo_store)) < 2 ^ 64
   \<and> length (sealed_segments demo_store) \<le> 1
   \<and> total_records (delete_vector 3 demo_store) = total_records demo_store
   \<and> unat (total_live_records demo_store) = 2
   \<and> unat (total_live_records (delete_vector 3 demo_store)) = 1
   \<and> unat (total_live_records (delete_vector 3 demo_store))
       \<le> unat (total_live_records demo_store)
   \<and> unat (total_live_records demo_store)
       - unat (total_live_records (delete_vector 3 demo_store)) \<le> 1"
proof -
  have fits: "length (records (active_segment demo_store))
       + sum_list (map num_records (sealed_segments demo_store)) < 2 ^ 64"
    by (simp add: demo_store_delete_eval)
  from delete_vector_counts [OF demo_store_delete_eval(1) fits] fits show ?thesis
    by (simp add: demo_store_delete_eval)
qed

text \<open>
  The claim as stated fails. In \<open>two_sealed_store\<close> the id 1 is present in exactly one
  segment, the sealed segment 0. It is not in the active segment, so \<open>delete(1)\<close> adds it
  to the tombstone sets of both sealed segments, and \<open>total_live_records\<close> goes from 2
  to 0. No count wraps around: each sealed segment then has one record and one tombstone.
\<close>

theorem delete_live_count_counterexample:
  "segments_holding two_sealed_store 1 = 1
   \<and> total_records (delete_vector 1 two_sealed_store) = total_records two_sealed_store
   \<and> total_live_records two_sealed_store = 2
   \<and> total_live_records (delete_vector 1 two_sealed_store) = 0
   \<and> tombstones_bounded (delete_vector 1 two_sealed_store)"
  by code_simp

subsection \<open>Engine search\<close>

lemma collect_results_length:
  "length acc < k \<Longrightarrow> length (collect_results k all_records hrs acc) \<le> k"
  by (induction hrs arbitrary: acc) (auto simp: Let_def)

lemma collect_results_sound:
  "r \<in> set (collect_results k all_records hrs acc) \<Longrightarrow>
   r \<in> set acc \<or>
   (\<exists>hr \<in> set hrs. sr_id hr < length all_records
      \<and> r = \<lparr>vr_id = rec_id (all_records ! sr_id hr), vr_distance = sr_distance hr,
              vr_metadata = metadata (all_records ! sr_id hr)\<rparr>)"
proof (induction hrs arbitrary: acc)
  case Nil
  then show ?case by simp
next
  case (Cons a hrs)
  define new where "new = \<lparr>vr_id = rec_id (all_records ! sr_id a), vr_distance = sr_distance a,
               vr_metadata = metadata (all_records ! sr_id a)\<rparr>"
  define acc' where "acc' = (if sr_id a < length all_records then acc @ [new] else acc)"
  have step: "collect_results k all_records (a # hrs) acc =
      (if length acc' \<ge> k then acc' else collect_results k all_records hrs acc')"
    by (simp add: acc'_def new_def Let_def)
  have here: "r \<in> set acc \<or> (sr_id a < length all_records \<and> r = new)" if "r \<in> set acc'"
    using that unfolding acc'_def by (cases "sr_id a < length all_records") auto
  from Cons.prems step
  have "r \<in> set acc' \<or> r \<in> set (collect_results k all_records hrs acc')"
    by (cases "length acc' \<ge> k") simp_all
  then have "r \<in> set acc' \<or> (\<exists>hr \<in> set hrs. sr_id hr < length all_records
      \<and> r = \<lparr>vr_id = rec_id (all_records ! sr_id hr), vr_distance = sr_distance hr,
              vr_metadata = metadata (all_records ! sr_id hr)\<rparr>)"
    using Cons.IH [of acc'] by blast
  then show ?case
  proof
    assume "r \<in> set acc'"
    from here [OF this] show ?thesis
      unfolding new_def by (elim disjE conjE) (blast, rule disjI2, rule bexI [of _ a], simp_all)
  next
    assume "\<exists>hr \<in> set hrs. sr_id hr < length all_records
        \<and> r = \<lparr>vr_id = rec_id (all_records ! sr_id hr), vr_distance = sr_distance hr,
                vr_metadata = metadata (all_records ! sr_id hr)\<rparr>"
    then obtain hr where "hr \<in> set hrs" "sr_id hr < length all_records"
      "r = \<lparr>vr_id = rec_id (all_records ! sr_id hr), vr_distance = sr_distance hr,
              vr_metadata = metadata (all_records ! sr_id hr)\<rparr>" by blast
    then show ?thesis
      by (intro disjI2 bexI [of _ hr] conjI) simp_all
  qed
qed

lemma scan_all_error: "scan_all s = Inl e \<Longrightarrow> e = IOError"
  by (simp add: scan_all_live_records split: if_splits)

lemma search_dimension_error:
  "fst (search hsearch query k db) = Inl QueryDimensionMismatch \<longleftrightarrow> length query \<noteq> vdb_dim db"
  by (auto simp: search_def Let_def split: sum.splits dest: scan_all_error)

lemma search_sets_ef:
  "length query = vdb_dim db \<Longrightarrow>
   hnsw_ef_search (hnsw (snd (search hsearch query k db))) = max ((k * 2) mod 2 ^ 64) 50"
  by (simp add: search_def Let_def set_ef_search_def split: sum.splits)

lemma search_at_most_k:
  "0 < k \<Longrightarrow> search hsearch query k db = (Inr rs, db') \<Longrightarrow> length rs \<le> k"
  by (auto simp: search_def Let_def collect_results_length split: if_splits sum.splits)

lemma search_results_from_scan:
  assumes "search hsearch query k db = (Inr rs, db')" and "r \<in> set rs"
  shows "\<exists>live (hr :: SearchResult). scan_all (store db) = Inr live
     \<and> hr \<in> set (hsearch (set_ef_search (max ((k * 2) mod 2 ^ 64) 50) (hnsw db)) query
                     (max ((k * 2) mod 2 ^ 64) 50))
     \<and> sr_id hr < length live
     \<and> r = \<lparr>vr_id = rec_id (live ! sr_id hr), vr_distance = sr_distance hr,
             vr_metadata = metadata (live ! sr_id hr)\<rparr>"
proof -
  define hrs where "hrs = hsearch (set_ef_search (max ((k * 2) mod 2 ^ 64) 50) (hnsw db)) query
                     (max ((k * 2) mod 2 ^ 64) 50)"
  from assms(1) obtain live where live: "scan_all (store db) = Inr live"
    and rs: "rs = collect_results k live hrs []"
    by (auto simp: search_def Let_def hrs_def split: if_splits sum.splits)
  from assms(2) rs have "r \<in> set (collect_results k live hrs [])" by simp
  from collect_results_sound [OF this]
  have "\<exists>hr \<in> set hrs. sr_id hr < length live
      \<and> r = \<lparr>vr_id = rec_id (live ! sr_id hr), vr_distance = sr_distance hr,
              vr_metadata = metadata (live ! sr_id hr)\<rparr>" by simp
  then obtain hr :: SearchResult where hr: "hr \<in> set hrs" "sr_id hr < length live"
      "r = \<lparr>vr_id = rec_id (live ! sr_id hr), vr_distance = sr_distance hr,
              vr_metadata = metadata (live ! sr_id hr)\<rparr>"
    by blast
  show ?thesis
    unfolding hrs_def [symmetric]
    by (rule exI [of _ live], rule exI [of _ hr]) (use live hr in simp)
qed

lemma demo_db_store_scan:
  "scan_all (store demo_db) = Inr [\<lparr>rec_id = 7, embedding = [1, 2], metadata = ''a''\<rparr>]"
  by (simp add: demo_db_def vdb_insert_def vectordb_new_def store_eval scan_all_def)

lemma demo_db_index:
  "hnsw_vectors (hnsw demo_db) = [[1, 2]]" "vdb_dim demo_db = 2"
  by (simp_all add: demo_db_def vdb_insert_def vectordb_new_def store_eval hnsw_new_def
      hnsw_insert_def)

text \<open>
  Claim C7 at \<open>k = 0\<close>. The engine holds one record; the index returns its one node as
  the candidate. The loop of \<open>search\<close> pushes the first candidate before it compares
  the size of the result with \<open>k\<close>, so the search for 0 neighbours returns one result.
  (For \<open>k > 0\<close> the result has at most \<open>k\<close> entries: \<open>search_at_most_k\<close>.)
\<close>

theorem search_k_zero_returns_one:
  "fst (search search_of_single_node [1, 2] 0 demo_db) =
     Inr [\<lparr>vr_id = 7, vr_distance = 0, vr_metadata = ''a''\<rparr>]"
  by (simp add: search_def Let_def demo_db_store_scan demo_db_index set_ef_search_def
      search_of_single_node_def distance_sq_def)

subsection \<open>Sealed segments of reachable stores\<close>

lemma compact_loop_preserves:
  assumes "\<And>seg. P seg \<Longrightarrow> P (moved_from seg)"
    and "list_all P segs" and "list_all P visited" and "list_all P clean"
  shows "case compact_loop t d segs (fs, visited, clean, to_merge, reclaimed) of
           Inl (e, fs', segs') \<Rightarrow> list_all P segs'
         | Inr (fs', visited', clean', to_merge', reclaimed') \<Rightarrow>
             list_all P visited' \<and> list_all P clean'"
  using assms(2-4)
proof (induction segs arbitrary: fs visited clean to_merge reclaimed)
  case Nil
  then show ?case by simp
next
  case (Cons seg segs)
  show ?case
  proof (cases "ratio_reaches (tombstone_ratio seg) t")
    case True
    show ?thesis
    proof (cases "read_parquet d fs (filepath seg) (sealed_deleted seg)")
      case (Inl e)
      with True Cons.prems show ?thesis by simp
    next
      case (Inr recs)
      have "case compact_loop t d segs
                  (fs(filepath seg := None), visited @ [seg], clean, to_merge @ recs,
                   reclaimed + (of_nat (num_records seg) - of_nat (length recs))) of
              Inl (e, fs', segs') \<Rightarrow> list_all P segs'
            | Inr (fs', visited', clean', to_merge', reclaimed') \<Rightarrow>
                list_all P visited' \<and> list_all P clean'"
        using Cons.prems by (intro Cons.IH) simp_all
      with True Inr show ?thesis by simp
    qed
  next
    case False
    have "case compact_loop t d segs
                (fs, visited @ [moved_from seg], clean @ [seg], to_merge, reclaimed) of
            Inl (e, fs', segs') \<Rightarrow> list_all P segs'
          | Inr (fs', visited', clean', to_merge', reclaimed') \<Rightarrow>
              list_all P visited' \<and> list_all P clean'"
      using Cons.prems assms(1) by (intro Cons.IH) simp_all
    with False show ?thesis by simp
  qed
qed

lemma store_compact_preserves:
  assumes mv: "\<And>seg. P seg \<Longrightarrow> P (moved_from seg)"
    and new: "\<And>i p n. 0 < n \<Longrightarrow>
                P \<lparr>sealed_segment_id = i, filepath = p, num_records = n, sealed_deleted = {}\<rparr>"
    and segs: "list_all P (sealed_segments s)"
  shows "list_all P (sealed_segments (snd (store_compact t s)))"
proof -
  have *: "case compact_loop t (dim s) (sealed_segments s) (files s, [], [], [], 0) of
             Inl (e, fs', segs') \<Rightarrow> list_all P segs'
           | Inr (fs', visited', clean', to_merge', reclaimed') \<Rightarrow>
               list_all P visited' \<and> list_all P clean'"
    using mv segs by (intro compact_loop_preserves) simp_all
  show ?thesis
  proof (cases "compact_loop t (dim s) (sealed_segments s) (files s, [], [], [], 0)")
    case (Inl a)
    with * show ?thesis
      by (cases a) (simp add: store_compact_def)
  next
    case (Inr b)
    obtain fs' visited' clean' to_merge' reclaimed'
      where b: "b = (fs', visited', clean', to_merge', reclaimed')"
      by (cases b) auto
    from * Inr b have vc: "list_all P visited'" "list_all P clean'" by simp_all
    have "0 < length to_merge'" if "to_merge' \<noteq> []" using that by simp
    with vc Inr b new show ?thesis
      by (simp add: store_compact_def Let_def commit_snapshot_def split: sum.splits)
  qed
qed

lemma flush_cases:
  "snd (flush_active_segment_locked s) = s
   \<or> (records (active_segment s) \<noteq> []
      \<and> sealed_segments (snd (flush_active_segment_locked s)) =
          sealed_segments s @
            [\<lparr>sealed_segment_id = segment_id (active_segment s),
              filepath = segment_path (data_dir s) (segment_id (active_segment s)),
              num_records = length (records (active_segment s)),
              sealed_deleted = deleted (active_segment s)\<rparr>]
      \<and> active_segment (snd (flush_active_segment_locked s)) =
          \<lparr>segment_id = next_segment_id s, records = [], deleted = {}\<rparr>)"
  by (simp add: flush_active_segment_locked_def Let_def commit_snapshot_def split: sum.splits)

text \<open>
  A property of stores that appending a row (of a kind \<open>R\<close>) and sealing keep is kept
  by the loop of \<open>bulk_insert\<close>.
\<close>

lemma bulk_insert_loop_preserves:
  assumes push: "\<And>r s. Q s \<Longrightarrow> R r \<Longrightarrow> Q (push_record r s)"
    and fl: "\<And>s. Q s \<Longrightarrow> Q (snd (flush_active_segment_locked s))"
    and rows: "\<And>j. j < count \<Longrightarrow> R (bulk_row ids vectors d j)"
  shows "Q s \<Longrightarrow> Q (snd (bulk_insert_loop ids vectors count d i s))"
  using rows
proof (induction ids vectors count d i s rule: bulk_insert_loop.induct)
  case (1 ids vectors count d i s)
  let ?s1 = "push_record (bulk_row ids vectors d i) s"
  show ?case
  proof (cases "i < count")
    case False
    with "1.prems" show ?thesis by (subst bulk_insert_loop.simps) simp
  next
    case True
    have s1: "Q ?s1" using push [OF "1.prems"(1) "1.prems"(2) [OF True]] .
    show ?thesis
    proof (cases "length (records (active_segment ?s1)) \<ge> segment_capacity s")
      case False
      from "1.IH"(2) [OF True False s1 "1.prems"(2)] True False show ?thesis
        by (subst bulk_insert_loop.simps) simp
    next
      case cap: True
      obtain r s' where f: "flush_active_segment_locked ?s1 = (r, s')"
        by (cases "flush_active_segment_locked ?s1")
      have s': "Q s'"
        using fl [OF s1] f by simp
      show ?thesis
      proof (cases r)
        case (Inl e)
        with True cap f s' show ?thesis by (subst bulk_insert_loop.simps) simp
      next
        case (Inr u)
        from "1.IH"(1) [OF True cap f [symmetric] Inr s' "1.prems"(2)] True cap f Inr
        show ?thesis
          by (subst bulk_insert_loop.simps) simp
      qed
    qed
  qed
qed

lemma push_record_fields [simp]:
  "sealed_segments (push_record r s) = sealed_segments s"
  "records (active_segment (push_record r s)) = records (active_segment s) @ [r]"
  "deleted (active_segment (push_record r s)) = deleted (active_segment s)"
  "segment_id (active_segment (push_record r s)) = segment_id (active_segment s)"
  "files (push_record r s) = files s" "dim (push_record r s) = dim s"
  "data_dir (push_record r s) = data_dir s"
  "next_segment_id (push_record r s) = next_segment_id s"
  "segment_capacity (push_record r s) = segment_capacity s"
  by (simp_all add: push_record_def)

lemma store_insert_cases:
  "snd (store_insert i emb meta s) = s
   \<or> snd (store_insert i emb meta s) =
       push_record \<lparr>rec_id = i, embedding = emb, metadata = meta\<rparr> s
   \<or> snd (store_insert i emb meta s) =
       snd (flush_active_segment_locked
              (push_record \<lparr>rec_id = i, embedding = emb, metadata = meta\<rparr> s))"
  by (simp add: store_insert_def Let_def)

lemma store_compact_active:
  "active_segment (snd (store_compact t s)) = active_segment s"
  by (simp add: store_compact_def Let_def commit_snapshot_def split: sum.splits prod.splits)

text \<open>A property kept by appending a row and by sealing is kept by every operation
  that only does these; deletes and compaction are treated by the caller.\<close>

lemma apply_op_preserves:
  assumes push: "\<And>r s. Q s \<Longrightarrow> Q (push_record r s)"
    and fl: "\<And>s. Q s \<Longrightarrow> Q (snd (flush_active_segment_locked s))"
    and del: "\<And>i. x = OpDelete i \<Longrightarrow> Q (delete_vector i s)"
    and cmp: "\<And>t. x = OpCompact t \<Longrightarrow> Q (snd (store_compact t s))"
    and s: "Q s"
  shows "Q (apply_op x s)"
proof (cases x)
  case (OpInsert i emb meta)
  with store_insert_cases [of i emb meta s] push fl s show ?thesis by auto
next
  case (OpBulkInsert ids vectors count d)
  have "Q (snd (bulk_insert_loop ids vectors count d 0 s))"
    by (rule bulk_insert_loop_preserves [where R = "\<lambda>r. True"]) (simp_all add: push fl s)
  with OpBulkInsert s show ?thesis by (auto simp: bulk_insert_def)
next
  case (OpDelete i)
  with del show ?thesis by simp
next
  case OpFlush
  with fl s show ?thesis by (simp add: flush_def)
next
  case (OpCompact t)
  with cmp show ?thesis by simp
qed

lemma sealed_nonempty_apply_op: "sealed_nonempty s \<Longrightarrow> sealed_nonempty (apply_op x s)"
proof (rule apply_op_preserves [where Q = sealed_nonempty])
  fix r s assume "sealed_nonempty s"
  then show "sealed_nonempty (push_record r s)" by (simp add: sealed_nonempty_def)
next
  fix s assume "sealed_nonempty s"
  then show "sealed_nonempty (snd (flush_active_segment_locked s))"
    using flush_cases [of s] by (auto simp: sealed_nonempty_def)
next
  fix i assume "sealed_nonempty s"
  then show "sealed_nonempty (delete_vector i s)"
    by (simp add: sealed_nonempty_def delete_vector_def tombstone_sealed_map list_all_iff)
next
  fix t assume "sealed_nonempty s"
  then show "sealed_nonempty (snd (store_compact t s))"
    unfolding sealed_nonempty_def
    by (rule store_compact_preserves [rotated 2]) (simp_all add: moved_from_def)
qed

lemma card_tombstones_le:
  assumes "D \<subseteq> rec_id ` set rs"
  shows "card D \<le> length rs"
proof -
  have "card D \<le> card (rec_id ` set rs)" using assms by (simp add: card_mono)
  also have "\<dots> \<le> card (set rs)" by (rule card_image_le) simp
  also have "\<dots> \<le> length rs" by (rule card_length)
  finally show ?thesis .
qed

lemma tombstones_bounded_apply_op:
  assumes "tombstones_bounded s"
    and hit: "case x of OpDelete i \<Rightarrow> found_in_active i (records (active_segment s)) | _ \<Rightarrow> True"
  shows "tombstones_bounded (apply_op x s)"
proof (rule apply_op_preserves [where Q = tombstones_bounded])
  fix r s assume "tombstones_bounded s"
  then show "tombstones_bounded (push_record r s)"
    by (auto simp: tombstones_bounded_def)
next
  fix s assume b: "tombstones_bounded s"
  then have "card (deleted (active_segment s)) \<le> length (records (active_segment s))"
    by (simp add: tombstones_bounded_def card_tombstones_le)
  with b flush_cases [of s] show "tombstones_bounded (snd (flush_active_segment_locked s))"
    by (auto simp: tombstones_bounded_def)
next
  fix i assume "x = OpDelete i"
  with hit have "i \<in> rec_id ` set (records (active_segment s))"
    by (simp add: found_in_active_iff)
  with assms(1) show "tombstones_bounded (delete_vector i s)"
    by (simp add: tombstones_bounded_def delete_vector_def found_in_active_iff)
next
  fix t
  have "list_all (\<lambda>seg. card (sealed_deleted seg) \<le> num_records seg)
          (sealed_segments (snd (store_compact t s)))"
    using assms(1) unfolding tombstones_bounded_def
    by (intro store_compact_preserves) (simp_all add: moved_from_def)
  with assms(1) show "tombstones_bounded (snd (store_compact t s))"
    by (simp add: tombstones_bounded_def store_compact_active)
qed (rule assms(1))

lemma sealed_nonempty_run_ops: "sealed_nonempty s \<Longrightarrow> sealed_nonempty (run_ops xs s)"
proof (induction xs arbitrary: s)
  case Nil
  then show ?case by simp
next
  case (Cons a xs)
  obtain now x where a: "a = (now, x)" by (cases a)
  from Cons.prems have "sealed_nonempty (s\<lparr>clock := now\<rparr>)"
    by (simp add: sealed_nonempty_def)
  then have "sealed_nonempty (apply_op x (s\<lparr>clock := now\<rparr>))"
    by (rule sealed_nonempty_apply_op)
  from Cons.IH [OF this] a show ?case by simp
qed

lemma tombstones_bounded_run_ops:
  "tombstones_bounded s \<Longrightarrow> deletes_hit_active xs s \<Longrightarrow> tombstones_bounded (run_ops xs s)"
proof (induction xs arbitrary: s)
  case Nil
  then show ?case by simp
next
  case (Cons a xs)
  obtain now x where a: "a = (now, x)" by (cases a)
  from Cons.prems(1) have b: "tombstones_bounded (s\<lparr>clock := now\<rparr>)"
    by (simp add: tombstones_bounded_def)
  from Cons.prems(2) a
  have hit: "case x of OpDelete i \<Rightarrow>
                 found_in_active i (records (active_segment (s\<lparr>clock := now\<rparr>)))
             | _ \<Rightarrow> True"
    and rest: "deletes_hit_active xs (apply_op x (s\<lparr>clock := now\<rparr>))"
    by (simp_all split: store_op.splits)
  from tombstones_bounded_apply_op [OF b hit]
  have "tombstones_bounded (apply_op x (s\<lparr>clock := now\<rparr>))" .
  from Cons.IH [OF this rest] a show ?case by simp
qed

text \<open>
  Claim C4, as the code has it. In every store state reached from \<open>open\<close> by a sequence
  of the public operations every sealed segment has \<open>num_records > 0\<close>. The size of its
  tombstone set is at most \<open>num_records\<close> as long as every delete of the sequence found
  its id in the active segment; a delete of an id that is not in the active segment
  adds the id to every sealed segment's tombstone set, whether the segment has it or
  not.
\<close>

theorem sealed_segments_invariant:
  "list_all (\<lambda>seg. 0 < num_records seg)
     (sealed_segments (run_ops xs (open_store d cap dir fs now)))
   \<and> (deletes_hit_active xs (open_store d cap dir fs now) \<longrightarrow>
        list_all (\<lambda>seg. card (sealed_deleted seg) \<le> num_records seg)
          (sealed_segments (run_ops xs (open_store d cap dir fs now))))"
proof (intro conjI impI)
  have "sealed_nonempty (open_store d cap dir fs now)"
    by (simp add: sealed_nonempty_def open_store_def commit_snapshot_def)
  from sealed_nonempty_run_ops [OF this]
  show "list_all (\<lambda>seg. 0 < num_records seg)
     (sealed_segments (run_ops xs (open_store d cap dir fs now)))"
    by (simp add: sealed_nonempty_def)
next
  assume hit: "deletes_hit_active xs (open_store d cap dir fs now)"
  have "tombstones_bounded (open_store d cap dir fs now)"
    by (simp add: tombstones_bounded_def open_store_def commit_snapshot_def)
  from tombstones_bounded_run_ops [OF this hit]
  show "list_all (\<lambda>seg. card (sealed_deleted seg) \<le> num_records seg)
          (sealed_segments (run_ops xs (open_store d cap dir fs now)))"
    by (simp add: tombstones_bounded_def)
qed

theorem sealed_segments_invariant_witness:
  "deletes_hit_active
     [(1, OpInsert 1 [1, 2] ''a''), (2, OpInsert 2 [3, 4] ''b''), (3, OpDelete 2),
      (4, OpInsert 3 [5, 6] ''c'')]
     (open_store 2 3 ''/tmp/vectordb'' Map.empty 0)
   \<and> map num_records (sealed_segments (run_ops
       [(1, OpInsert 1 [1, 2] ''a''), (2, OpInsert 2 [3, 4] ''b''), (3, OpDelete 2),
        (4, OpInsert 3 [5, 6] ''c'')]
       (open_store 2 3 ''/tmp/vectordb'' Map.empty 0))) = [3]
   \<and> map sealed_deleted (sealed_segments (run_ops
       [(1, OpInsert 1 [1, 2] ''a''), (2, OpInsert 2 [3, 4] ''b''), (3, OpDelete 2),
        (4, OpInsert 3 [5, 6] ''c'')]
       (open_store 2 3 ''/tmp/vectordb'' Map.empty 0))) = [{2}]
   \<and> list_all (\<lambda>seg. card (sealed_deleted seg) \<le> num_records seg)
       (sealed_segments (run_ops
       [(1, OpInsert 1 [1, 2] ''a''), (2, OpInsert 2 [3, 4] ''b''), (3, OpDelete 2),
        (4, OpInsert 3 [5, 6] ''c'')]
       (open_store 2 3 ''/tmp/vectordb'' Map.empty 0)))"
  using sealed_segments_invariant
    [of "[(1, OpInsert 1 [1, 2] ''a''), (2, OpInsert 2 [3, 4] ''b''), (3, OpDelete 2),
          (4, OpInsert 3 [5, 6] ''c'')]" 2 3 "''/tmp/vectordb''" Map.empty 0]
  by (simp add: store_eval)

text \<open>
  The claim as stated fails: after \<open>open(dim = 1, capacity = 1)\<close>, one insert and the
  deletes of the absent ids 7 and 8, the sealed segment has one record and two
  tombstones.
\<close>

theorem tombstone_bound_counterexample:
  "map num_records (sealed_segments missed_deletes_store) = [1]
   \<and> map sealed_deleted (sealed_segments missed_deletes_store) = [{8, 7}]
   \<and> map (\<lambda>seg. card (sealed_deleted seg)) (sealed_segments missed_deletes_store) = [2]"
  by (simp add: missed_deletes_store_def store_eval)

subsection \<open>Segment file names are distinct\<close>

lemma digit_char_inj: "a < 10 \<Longrightarrow> b < 10 \<Longrightarrow> digit_char a = digit_char b \<Longrightarrow> a = b"
proof -
  assume a: "a < 10" and b: "b < 10" and eq: "digit_char a = digit_char b"
  have d: "distinct ''0123456789''" by simp
  from a b have "a < length ''0123456789''" "b < length ''0123456789''" by simp_all
  with d eq show "a = b"
    unfolding digit_char_def by (simp only: nth_eq_iff_index_eq)
qed

lemma digit_char_not_minus: "d < 10 \<Longrightarrow> digit_char d \<noteq> CHR ''-''"
proof -
  assume "d < 10"
  then have "digit_char d \<in> set ''0123456789''"
    unfolding digit_char_def by (intro nth_mem) simp
  then show ?thesis by auto
qed

lemma digits_nonempty: "digits n \<noteq> []"
  by (subst digits.simps) simp

lemma digits_no_minus: "CHR ''-'' \<notin> set (digits n)"
proof (induction n rule: digits.induct)
  case (1 n)
  show ?case
  proof (cases "n < 10")
    case True
    then show ?thesis
      using digit_char_not_minus [of n] by (subst digits.simps) auto
  next
    case False
    have "n mod 10 < 10" by simp
    from digit_char_not_minus [OF this] "1.IH" [OF False] False show ?thesis
      by (subst digits.simps) auto
  qed
qed

lemma digits_inj: "digits n = digits m \<Longrightarrow> n = m"
proof (induction n arbitrary: m rule: digits.induct)
  case (1 n)
  have dn: "digits n = (if n < 10 then [digit_char n]
                        else digits (n div 10) @ [digit_char (n mod 10)])"
    by (subst digits.simps) simp
  have dm: "digits m = (if m < 10 then [digit_char m]
                        else digits (m div 10) @ [digit_char (m mod 10)])"
    by (subst digits.simps) simp
  show ?case
  proof (cases "n < 10")
    case n: True
    show ?thesis
    proof (cases "m < 10")
      case True
      with n "1.prems" dn dm show ?thesis by (simp add: digit_char_inj)
    next
      case False
      with n "1.prems" dn dm digits_nonempty [of "m div 10"] show ?thesis by simp
    qed
  next
    case n: False
    show ?thesis
    proof (cases "m < 10")
      case True
      with n "1.prems" dn dm digits_nonempty [of "n div 10"] show ?thesis
        by (metis append_is_Nil_conv butlast.simps(2) butlast_snoc)
    next
      case False
      with n "1.prems" dn dm
      have a: "digits (n div 10) = digits (m div 10)"
        and b: "digit_char (n mod 10) = digit_char (m mod 10)" by simp_all
      from "1.IH" [OF n a] have "n div 10 = m div 10" .
      moreover from b have "n mod 10 = m mod 10" by (intro digit_char_inj) simp_all
      ultimately show ?thesis by (metis div_mult_mod_eq)
    qed
  qed
qed

lemma to_string_inj: "to_string i = to_string j \<Longrightarrow> i = j"
proof -
  assume eq: "to_string i = to_string j"
  have no: "digits n \<noteq> CHR ''-'' # cs" for n cs
    using digits_no_minus [of n] by (metis list.set_intros(1))
  have no': "CHR ''-'' # cs \<noteq> digits n" for n cs
    using no [of n cs] by (rule not_sym)
  show "i = j"
  proof (cases "i < 0")
    case i: True
    show ?thesis
    proof (cases "j < 0")
      case True
      with i eq have "digits (nat (- i)) = digits (nat (- j))" by (simp add: to_string_def)
      from digits_inj [OF this] i True show ?thesis by simp
    next
      case False
      with i eq no' [of _ "nat j"] show ?thesis by (simp add: to_string_def)
    qed
  next
    case i: False
    show ?thesis
    proof (cases "j < 0")
      case True
      with i eq no [of "nat i"] show ?thesis by (simp add: to_string_def)
    next
      case False
      with i eq have "digits (nat i) = digits (nat j)" by (simp add: to_string_def)
      from digits_inj [OF this] i False show ?thesis by simp
    qed
  qed
qed

lemma segment_path_inj [simp]: "segment_path dir i = segment_path dir j \<longleftrightarrow> i = j"
  by (auto simp: segment_path_def dest: to_string_inj)

subsection \<open>Reading back what was written\<close>

lemma slice_concat:
  "\<forall>x \<in> set xs. length x = d \<Longrightarrow> i < length xs \<Longrightarrow>
   take d (drop (i * d) (concat xs)) = xs ! i"
proof (induction xs arbitrary: i)
  case Nil
  then show ?case by simp
next
  case (Cons x xs)
  show ?case
  proof (cases i)
    case 0
    with Cons.prems show ?thesis by simp
  next
    case (Suc j)
    with Cons.prems Cons.IH [of j] show ?thesis by simp
  qed
qed

lemma file_rows_file_of:
  assumes "list_all (\<lambda>r. length (embedding r) = d) recs"
  shows "file_rows d (file_of recs) = recs"
proof (rule nth_equalityI)
  show "length (file_rows d (file_of recs)) = length recs"
    by (simp add: file_rows_def num_rows_def file_of_def)
next
  fix i assume "i < length (file_rows d (file_of recs))"
  then have i: "i < length recs" by (simp add: file_rows_def num_rows_def file_of_def)
  have "\<forall>x \<in> set (map embedding recs). length x = d"
    using assms by (auto simp: list_all_iff)
  from slice_concat [OF this, of i] i
  have "take d (drop (i * d) (concat (map embedding recs))) = embedding (recs ! i)" by simp
  with i show "file_rows d (file_of recs) ! i = recs ! i"
    by (simp add: file_rows_def num_rows_def file_of_def file_row_def)
qed

lemma file_ok_file_of:
  "list_all (\<lambda>r. length (embedding r) = d) recs \<Longrightarrow> file_ok d (file_of recs)"
  by (simp add: file_ok_def file_of_def num_rows_def length_concat_embeddings)

lemma num_rows_file_of [simp]: "num_rows (file_of recs) = length recs"
  by (simp add: num_rows_def file_of_def)

lemma write_parquet_ok:
  "0 < d \<Longrightarrow> list_all (\<lambda>r. length (embedding r) = d) recs \<Longrightarrow>
   write_parquet d path recs fs = Inr (fs(path \<mapsto> file_of recs))"
  by (simp add: write_parquet_def file_of_def length_concat_embeddings)

lemma file_rows_lengths:
  assumes "file_ok d f"
  shows "list_all (\<lambda>r. length (embedding r) = d) (file_rows d f)"
proof -
  have "length (take d (drop (i * d) (embedding_floats f))) = d" if "i < num_rows f" for i
  proof -
    from that have "Suc i * d \<le> num_rows f * d" by (intro mult_le_mono1) simp
    with assms have "i * d + d \<le> length (embedding_floats f)" by (simp add: file_ok_def)
    then show ?thesis by simp
  qed
  then show ?thesis
    by (simp add: file_rows_def list_all_iff file_row_def)
qed

lemma live_rows_lengths:
  "file_ok d f \<Longrightarrow> list_all (\<lambda>r. length (embedding r) = d) (live_rows d f del)"
  using file_rows_lengths [of d f] by (simp add: live_rows_def list_all_iff)

subsection \<open>The representation invariant\<close>

lemma sealed_ok_frame:
  assumes "sealed_ok s seg"
    and "data_dir s' = data_dir s" and "dim s' = dim s"
    and "next_segment_id s \<le> next_segment_id s'"
    and "files s' (filepath seg) = files s (filepath seg)"
  shows "sealed_ok s' seg"
  using assms by (auto simp: sealed_ok_def split: option.splits)

lemma sealed_ok_tombstone [simp]:
  "sealed_ok s (seg\<lparr>sealed_deleted := D\<rparr>) = sealed_ok s seg"
  by (simp add: sealed_ok_def cong: option.case_cong)

lemma sealed_ok_clock [simp]: "sealed_ok (s\<lparr>clock := now\<rparr>) = sealed_ok s"
  by (intro ext) (simp add: sealed_ok_def cong: option.case_cong)

lemma sealed_ok_push [simp]: "sealed_ok (push_record r s) = sealed_ok s"
  by (intro ext) (simp add: sealed_ok_def cong: option.case_cong)

lemma segment_live_rows_push [simp]:
  "segment_live_rows (push_record r s) = segment_live_rows s"
  by (intro ext) (simp add: segment_live_rows_def cong: option.case_cong)

lemma store_inv_sealed_ok:
  "store_inv s \<Longrightarrow> seg \<in> set (sealed_segments s) \<Longrightarrow> sealed_ok s seg"
  by (simp add: store_inv_def list_all_iff)

lemma sealed_ok_path:
  "sealed_ok s seg \<Longrightarrow> filepath seg = segment_path (data_dir s) (sealed_segment_id seg)"
  by (simp add: sealed_ok_def)

lemma sealed_ok_file:
  "sealed_ok s seg \<Longrightarrow>
   \<exists>f. files s (filepath seg) = Some f \<and> file_ok (dim s) f \<and> num_rows f = num_records seg"
  by (auto simp: sealed_ok_def split: option.splits)

lemma store_inv_clock [simp]: "store_inv (s\<lparr>clock := now\<rparr>) = store_inv s"
  by (simp add: store_inv_def)

lemma store_inv_open: "0 < d \<Longrightarrow> store_inv (open_store d cap dir fs now)"
  by (simp add: store_inv_def open_store_def commit_snapshot_def)

lemma store_inv_push:
  assumes "store_inv s" and "length (embedding r) = dim s"
  shows "store_inv (push_record r s)"
  using assms by (simp add: store_inv_def)

lemma store_inv_delete: "store_inv s \<Longrightarrow> store_inv (delete_vector i s)"
proof -
  assume inv: "store_inv s"
  have ok: "sealed_ok (delete_vector i s) = sealed_ok s"
    by (intro ext) (simp add: sealed_ok_def delete_vector_def cong: option.case_cong)
  show ?thesis
  proof (cases "found_in_active i (records (active_segment s))")
    case True
    with inv show ?thesis
      unfolding store_inv_def ok by (simp add: delete_vector_def)
  next
    case False
    have segs: "sealed_segments (delete_vector i s) =
        map (\<lambda>seg. seg\<lparr>sealed_deleted := insert i (sealed_deleted seg)\<rparr>) (sealed_segments s)"
      using False by (simp add: delete_vector_def tombstone_sealed_map)
    have rest: "dim (delete_vector i s) = dim s"
      "active_segment (delete_vector i s) = active_segment s"
      "next_segment_id (delete_vector i s) = next_segment_id s"
      using False by (simp_all add: delete_vector_def)
    from inv show ?thesis
      unfolding store_inv_def ok segs rest
      by (simp add: list_all_iff comp_def image_image)
  qed
qed

lemma sealed_store_fields [simp]:
  "dim (sealed_store s) = dim s" "data_dir (sealed_store s) = data_dir s"
  "segment_capacity (sealed_store s) = segment_capacity s"
  "next_segment_id (sealed_store s) = next_segment_id s + 1"
  "active_segment (sealed_store s) =
     \<lparr>segment_id = next_segment_id s, records = [], deleted = {}\<rparr>"
  "sealed_segments (sealed_store s) = sealed_segments s @
     [\<lparr>sealed_segment_id = segment_id (active_segment s),
       filepath = segment_path (data_dir s) (segment_id (active_segment s)),
       num_records = length (records (active_segment s)),
       sealed_deleted = deleted (active_segment s)\<rparr>]"
  "files (sealed_store s) =
     (files s)(segment_path (data_dir s) (segment_id (active_segment s))
                 \<mapsto> file_of (records (active_segment s)))"
  by (simp_all add: sealed_store_def commit_snapshot_def)

lemma flush_inv_result:
  assumes "store_inv s"
  shows "flush_active_segment_locked s =
           (Inr (), if records (active_segment s) = [] then s else sealed_store s)"
proof -
  from assms have "0 < dim s"
    and "list_all (\<lambda>r. length (embedding r) = dim s) (records (active_segment s))"
    by (simp_all add: store_inv_def)
  then show ?thesis
    by (simp add: flush_active_segment_locked_def write_parquet_ok sealed_store_def Let_def)
qed

lemma active_path_fresh:
  assumes "store_inv s" and "seg \<in> set (sealed_segments s)"
  shows "filepath seg \<noteq> segment_path (data_dir s) (segment_id (active_segment s))"
proof -
  from assms have "filepath seg = segment_path (data_dir s) (sealed_segment_id seg)"
    by (intro sealed_ok_path store_inv_sealed_ok)
  moreover from assms have "sealed_segment_id seg \<noteq> segment_id (active_segment s)"
    unfolding store_inv_def by (metis imageI)
  ultimately show ?thesis by simp
qed

lemma store_inv_sealed_store:
  assumes "store_inv s"
  shows "store_inv (sealed_store s)"
proof -
  let ?s' = "sealed_store s"
  let ?path = "segment_path (data_dir s) (segment_id (active_segment s))"
  have old: "sealed_ok ?s' seg" if "seg \<in> set (sealed_segments s)" for seg
  proof (rule sealed_ok_frame [of s])
    show "sealed_ok s seg" using assms that by (rule store_inv_sealed_ok)
    show "files ?s' (filepath seg) = files s (filepath seg)"
      using active_path_fresh [OF assms that] by simp
  qed simp_all
  have lens: "list_all (\<lambda>r. length (embedding r) = dim s) (records (active_segment s))"
    using assms by (simp add: store_inv_def)
  have new: "sealed_ok ?s'
      \<lparr>sealed_segment_id = segment_id (active_segment s), filepath = ?path,
        num_records = length (records (active_segment s)),
        sealed_deleted = deleted (active_segment s)\<rparr>"
    using assms file_ok_file_of [OF lens]
    by (simp add: sealed_ok_def store_inv_def)
  have ids: "\<forall>seg \<in> set (sealed_segments s). sealed_segment_id seg < next_segment_id s"
    using assms by (auto simp: store_inv_def list_all_iff sealed_ok_def)
  have a: "list_all (sealed_ok ?s') (sealed_segments ?s')"
    using old new by (simp add: list_all_iff)
  have b: "distinct (map sealed_segment_id (sealed_segments ?s'))"
    using assms by (simp add: store_inv_def)
  have c: "segment_id (active_segment ?s') \<notin> sealed_segment_id ` set (sealed_segments ?s')"
    using ids assms by (auto simp: store_inv_def)
  from assms a b c show ?thesis
    by (simp add: store_inv_def)
qed

lemma store_inv_flush:
  "store_inv s \<Longrightarrow> store_inv (snd (flush_active_segment_locked s))"
  by (simp add: flush_inv_result store_inv_sealed_store)

subsection \<open>The live records under the operations\<close>

lemma scan_all_inv: "store_inv s \<Longrightarrow> scan_all s = Inr (live_records s)"
proof -
  assume inv: "store_inv s"
  have ex: "\<forall>seg \<in> set (sealed_segments s). files s (filepath seg) \<noteq> None"
    using sealed_ok_file [OF store_inv_sealed_ok [OF inv]] by auto
  have m: "map (\<lambda>seg. filter (\<lambda>r. rec_id r \<notin> sealed_deleted seg)
               (file_rows (dim s) (the (files s (filepath seg))))) (sealed_segments s)
      = map (segment_live_rows s) (sealed_segments s)"
    using ex by (intro map_cong refl) (auto simp: segment_live_rows_def live_rows_def)
  from ex have c: "(\<forall>seg \<in> set (sealed_segments s). files s (filepath seg) \<noteq> None) = True"
    by simp
  show ?thesis
    by (simp only: scan_all_live_records c if_True m live_records_def)
qed

lemma live_records_push:
  "live_records (push_record r s) =
     live_records s @ (if rec_id r \<in> deleted (active_segment s) then [] else [r])"
  by (simp add: live_records_def)

lemma live_records_sealed_store:
  assumes "store_inv s"
  shows "live_records (sealed_store s) = live_records s"
proof -
  let ?s' = "sealed_store s"
  let ?path = "segment_path (data_dir s) (segment_id (active_segment s))"
  have lens: "list_all (\<lambda>r. length (embedding r) = dim s) (records (active_segment s))"
    using assms by (simp add: store_inv_def)
  have old: "segment_live_rows ?s' seg = segment_live_rows s seg"
    if "seg \<in> set (sealed_segments s)" for seg
    using active_path_fresh [OF assms that]
    by (simp add: segment_live_rows_def cong: option.case_cong)
  then have olds: "map (segment_live_rows ?s') (sealed_segments s)
      = map (segment_live_rows s) (sealed_segments s)"
    by (intro map_cong refl)
  have new: "segment_live_rows ?s'
      \<lparr>sealed_segment_id = segment_id (active_segment s), filepath = ?path,
        num_records = length (records (active_segment s)),
        sealed_deleted = deleted (active_segment s)\<rparr>
     = filter (\<lambda>r. rec_id r \<notin> deleted (active_segment s)) (records (active_segment s))"
    by (simp add: segment_live_rows_def live_rows_def file_rows_file_of [OF lens])
  show ?thesis
    by (simp add: live_records_def olds new)
qed

subsection \<open>Bulk insert and batch ingestion\<close>

lemma bulk_row_length:
  assumes "i < count" and "count * d \<le> length vectors"
  shows "length (embedding (bulk_row ids vectors d i)) = d"
proof -
  from assms(1) have "Suc i * d \<le> count * d" by (intro mult_le_mono1) simp
  with assms(2) have "i * d + d \<le> length vectors" by simp
  then show ?thesis by (simp add: bulk_row_def)
qed

lemma filter_upt_step:
  assumes "i < n" and "\<And>j. i < j \<Longrightarrow> keep j = keep' j"
  shows "filter keep [i..<n] = (if keep i then [i] else []) @ filter keep' [Suc i..<n]"
proof -
  have "filter keep [Suc i..<n] = filter keep' [Suc i..<n]"
    using assms(2) by (intro filter_cong refl) simp
  with assms(1) show ?thesis by (simp add: upt_conv_Cons)
qed

lemma bulk_insert_loop_inv:
  assumes "store_inv s" and "d = dim s" and "count * d \<le> length vectors"
  shows "\<exists>s' keep. bulk_insert_loop ids vectors count d i s = (Inr (), s')
           \<and> store_inv s' \<and> dim s' = dim s
           \<and> live_records s' =
               live_records s @ map (bulk_row ids vectors d) (filter keep [i..<count])
           \<and> (deleted (active_segment s) = {} \<longrightarrow> (\<forall>j. keep j))"
  using assms
proof (induction ids vectors count d i s rule: bulk_insert_loop.induct)
  case (1 ids vectors count d i s)
  note inv = "1.prems"(1) and d = "1.prems"(2) and buf = "1.prems"(3)
  show ?case
  proof (cases "i < count")
    case False
    then have "bulk_insert_loop ids vectors count d i s = (Inr (), s)"
      by (subst bulk_insert_loop.simps) simp
    with inv False show ?thesis
      by (intro exI [of _ s] exI [of _ "\<lambda>j. True"]) simp
  next
    case True
    define row where "row = bulk_row ids vectors d i"
    define s1 where "s1 = push_record row s"
    have len: "length (embedding row) = dim s"
      unfolding row_def d [symmetric] using True buf by (rule bulk_row_length)
    have inv1: "store_inv s1"
      unfolding s1_def using inv len by (rule store_inv_push)
    have live1: "live_records s1 =
        live_records s @ (if rec_id row \<in> deleted (active_segment s) then [] else [row])"
      unfolding s1_def by (rule live_records_push)
    have ne: "records (active_segment s1) \<noteq> []"
      by (simp add: s1_def)
    have fl: "flush_active_segment_locked s1 = (Inr (), sealed_store s1)"
      using flush_inv_result [OF inv1] ne by simp
    show ?thesis
    proof (cases "length (records (active_segment s1)) \<ge> segment_capacity s")
      case cap: True
      have step: "bulk_insert_loop ids vectors count d i s =
          bulk_insert_loop ids vectors count d (i + 1) (sealed_store s1)"
        using True cap fl unfolding s1_def row_def
        by (subst bulk_insert_loop.simps) simp
      have inv2: "store_inv (sealed_store s1)"
        using inv1 by (rule store_inv_sealed_store)
      have d2: "d = dim (sealed_store s1)" using d by (simp add: s1_def)
      from "1.IH"(1) [OF True cap [unfolded s1_def row_def]
          fl [unfolded s1_def row_def, symmetric] refl inv2 [unfolded s1_def row_def]
          d2 [unfolded s1_def row_def] buf]
      obtain s' keep' where
        r: "bulk_insert_loop ids vectors count d (i + 1) (sealed_store s1) = (Inr (), s')"
        and i': "store_inv s'" and d': "dim s' = dim s"
        and l': "live_records s' = live_records (sealed_store s1)
                   @ map (bulk_row ids vectors d) (filter keep' [i + 1..<count])"
        and k': "\<forall>j. keep' j"
        unfolding s1_def row_def by auto
      define keep where "keep j = (if j = i then rec_id row \<notin> deleted (active_segment s)
                                   else keep' j)" for j
      have f: "filter keep [i..<count] =
          (if keep i then [i] else []) @ filter keep' [Suc i..<count]"
        using True by (rule filter_upt_step) (simp add: keep_def)
      have "live_records s' =
          live_records s @ map (bulk_row ids vectors d) (filter keep [i..<count])"
        using l' live1 by (simp add: live_records_sealed_store [OF inv1] f keep_def row_def)
      moreover have "deleted (active_segment s) = {} \<longrightarrow> (\<forall>j. keep j)"
        using k' by (simp add: keep_def)
      ultimately show ?thesis
        using step r i' d' by (intro exI [of _ s'] exI [of _ keep]) simp
    next
      case nocap: False
      have step: "bulk_insert_loop ids vectors count d i s =
          bulk_insert_loop ids vectors count d (i + 1) s1"
        using True nocap unfolding s1_def row_def
        by (subst bulk_insert_loop.simps) simp
      have d2: "d = dim s1" using d by (simp add: s1_def)
      from "1.IH"(2) [OF True nocap [unfolded s1_def row_def] inv1 [unfolded s1_def row_def]
          d2 [unfolded s1_def row_def] buf]
      obtain s' keep' where
        r: "bulk_insert_loop ids vectors count d (i + 1) s1 = (Inr (), s')"
        and i': "store_inv s'" and d': "dim s' = dim s"
        and l': "live_records s' = live_records s1
                   @ map (bulk_row ids vectors d) (filter keep' [i + 1..<count])"
        and k': "deleted (active_segment s) = {} \<longrightarrow> (\<forall>j. keep' j)"
        unfolding s1_def row_def by auto
      define keep where "keep j = (if j = i then rec_id row \<notin> deleted (active_segment s)
                                   else keep' j)" for j
      have f: "filter keep [i..<count] =
          (if keep i then [i] else []) @ filter keep' [Suc i..<count]"
        using True by (rule filter_upt_step) (simp add: keep_def)
      have "live_records s' =
          live_records s @ map (bulk_row ids vectors d) (filter keep [i..<count])"
        using l' live1 by (simp add: f keep_def row_def)
      moreover have "deleted (active_segment s) = {} \<longrightarrow> (\<forall>j. keep j)"
        using k' by (simp add: keep_def)
      ultimately show ?thesis
        using step r i' d' by (intro exI [of _ s'] exI [of _ keep]) simp
    qed
  qed
qed

lemma sint_dim: "d < 2 ^ 31 \<Longrightarrow> sint (word_of_nat d :: 32 word) = int d"
  by (simp add: signed_of_nat signed_take_bit_int_eq_self)

lemma bulk_insert_inv:
  assumes "store_inv s" and "d = dim s" and "count * d \<le> length vectors"
  shows "\<exists>s' keep. bulk_insert ids vectors count d s = (Inr (), s')
           \<and> store_inv s' \<and> dim s' = dim s
           \<and> live_records s' =
               live_records s @ map (bulk_row ids vectors d) (filter keep [0..<count])
           \<and> (deleted (active_segment s) = {} \<longrightarrow> (\<forall>j. keep j))"
  using bulk_insert_loop_inv [OF assms, of ids 0] assms(2) by (simp add: bulk_insert_def)

lemma ingest_batch_ignores_metadata:
  "ingest_batch (batch\<lparr>metadata_column := m\<rparr>) db = ingest_batch batch db"
  by (simp add: ingest_batch_def split: option.splits prod.splits)

text \<open>
  Claim C9. \<open>ingest_batch\<close> never reads the metadata column: with any other metadata
  column (or none) it does the same. For a well-formed batch with both required
  columns and the engine's list size, on a store that satisfies its invariant, it
  returns the row count, and the \<open>scan_all\<close> of the store afterwards is the \<open>scan_all\<close>
  before followed by rows of the batch, in order, each with its id, its slice of the
  flat buffer and the empty string as metadata. (A row is missing only if its id is in
  the tombstone set of the active segment it went to; when that set is empty all rows
  are there.)
\<close>

theorem ingest_batch_empty_metadata:
  assumes "store_inv (store db)" and "dim (store db) = vdb_dim db"
    and "vdb_dim db < 2 ^ 31" and "batch_ok batch"
    and "id_column batch = Some ids"
    and "embedding_column batch = Some (int (vdb_dim db), floats)"
  shows "ingest_batch (batch\<lparr>metadata_column := m\<rparr>) db = ingest_batch batch db
     \<and> (\<exists>db' keep.
          ingest_batch batch db = (Inr (batch_num_rows batch), db')
          \<and> scan_all (store db) = Inr (live_records (store db))
          \<and> scan_all (store db') =
              Inr (live_records (store db)
                   @ map (\<lambda>i. \<lparr>rec_id = ids ! i,
                                embedding = take (vdb_dim db) (drop (i * vdb_dim db) floats),
                                metadata = ''''\<rparr>)
                         (filter keep [0..<batch_num_rows batch]))
          \<and> (deleted (active_segment (store db)) = {} \<longrightarrow> (\<forall>i. keep i)))"
proof (rule conjI)
  show "ingest_batch (batch\<lparr>metadata_column := m\<rparr>) db = ingest_batch batch db"
    by (rule ingest_batch_ignores_metadata)
next
  let ?d = "vdb_dim db" and ?n = "batch_num_rows batch"
  from assms(4,6) have buf: "?n * ?d \<le> length floats"
    by (simp add: batch_ok_def)
  from bulk_insert_inv [OF assms(1) assms(2) [symmetric] buf, of ids]
  obtain s' keep where
    b: "bulk_insert ids floats ?n ?d (store db) = (Inr (), s')"
    and inv': "store_inv s'"
    and live': "live_records s' =
        live_records (store db) @ map (bulk_row ids floats ?d) (filter keep [0..<?n])"
    and k: "deleted (active_segment (store db)) = {} \<longrightarrow> (\<forall>j. keep j)"
    by blast
  let ?db' = "db\<lparr>store := s', hnsw := index_rows floats ?d ?n 0 (hnsw db)\<rparr>"
  have r: "ingest_batch batch db = (Inr ?n, ?db')"
    using assms(5,6) b sint_dim [OF assms(3)] by (simp add: ingest_batch_def Let_def)
  have rows: "bulk_row ids floats ?d =
      (\<lambda>i. \<lparr>rec_id = ids ! i, embedding = take ?d (drop (i * ?d) floats), metadata = ''''\<rparr>)"
    by (intro ext) (simp add: bulk_row_def)
  have "scan_all (store ?db') = Inr (live_records s')"
    using scan_all_inv [OF inv'] by simp
  with live' rows scan_all_inv [OF assms(1)] r k
  show "\<exists>db' keep.
          ingest_batch batch db = (Inr (batch_num_rows batch), db')
          \<and> scan_all (store db) = Inr (live_records (store db))
          \<and> scan_all (store db') =
              Inr (live_records (store db)
                   @ map (\<lambda>i. \<lparr>rec_id = ids ! i,
                                embedding = take (vdb_dim db) (drop (i * vdb_dim db) floats),
                                metadata = ''''\<rparr>)
                         (filter keep [0..<batch_num_rows batch]))
          \<and> (deleted (active_segment (store db)) = {} \<longrightarrow> (\<forall>i. keep i))"
    by (intro exI [of _ ?db'] exI [of _ keep]) simp
qed

lemma fresh_db_facts:
  "store_inv (store fresh_db)" "dim (store fresh_db) = vdb_dim fresh_db"
  "vdb_dim fresh_db = 2" "deleted (active_segment (store fresh_db)) = {}"
  "live_records (store fresh_db) = []"
proof -
  show "store_inv (store fresh_db)"
    by (simp add: fresh_db_def vectordb_new_def store_inv_open)
qed (simp_all add: fresh_db_def vectordb_new_def live_records_def open_store_def
      commit_snapshot_def)

theorem ingest_batch_empty_metadata_witness:
  "store_inv (store fresh_db) \<and> dim (store fresh_db) = vdb_dim fresh_db
   \<and> vdb_dim fresh_db < 2 ^ 31 \<and> batch_ok demo_batch
   \<and> id_column demo_batch = Some [10, 11, 12, 13]
   \<and> embedding_column demo_batch = Some (int (vdb_dim fresh_db), [1, 2, 3, 4, 5, 6, 7, 8])
   \<and> metadata_column demo_batch = Some [''w'', ''x'', ''y'', ''z'']
   \<and> fst (ingest_batch demo_batch fresh_db) = Inr 4
   \<and> scan_all (store (snd (ingest_batch demo_batch fresh_db))) =
       Inr [\<lparr>rec_id = 10, embedding = [1, 2], metadata = ''''\<rparr>,
            \<lparr>rec_id = 11, embedding = [3, 4], metadata = ''''\<rparr>,
            \<lparr>rec_id = 12, embedding = [5, 6], metadata = ''''\<rparr>,
            \<lparr>rec_id = 13, embedding = [7, 8], metadata = ''''\<rparr>]"
proof -
  have h: "batch_ok demo_batch" "id_column demo_batch = Some [10, 11, 12, 13]"
    "embedding_column demo_batch = Some (int (vdb_dim fresh_db), [1, 2, 3, 4, 5, 6, 7, 8])"
    "metadata_column demo_batch = Some [''w'', ''x'', ''y'', ''z'']"
    "vdb_dim fresh_db < 2 ^ 31" "batch_num_rows demo_batch = 4"
    by (simp_all add: demo_batch_def batch_ok_def fresh_db_facts)
  from ingest_batch_empty_metadata
    [OF fresh_db_facts(1,2) h(5) h(1) h(2) h(3), THEN conjunct2]
  obtain db' keep where
    r: "ingest_batch demo_batch fresh_db = (Inr (batch_num_rows demo_batch), db')"
    and sc: "scan_all (store db') =
      Inr (live_records (store fresh_db)
           @ map (\<lambda>i. \<lparr>rec_id = [10, 11, 12, 13] ! i,
                        embedding = take (vdb_dim fresh_db)
                                      (drop (i * vdb_dim fresh_db) [1, 2, 3, 4, 5, 6, 7, 8]),
                        metadata = ''''\<rparr>)
                 (filter keep [0..<batch_num_rows demo_batch]))"
    and k: "deleted (active_segment (store fresh_db)) = {} \<longrightarrow> (\<forall>i. keep i)"
    by blast
  from k have "filter keep [0..<4] = [0..<4]" by (simp add: fresh_db_facts)
  with sc have "scan_all (store db') =
       Inr [\<lparr>rec_id = 10, embedding = [1, 2], metadata = ''''\<rparr>,
            \<lparr>rec_id = 11, embedding = [3, 4], metadata = ''''\<rparr>,
            \<lparr>rec_id = 12, embedding = [5, 6], metadata = ''''\<rparr>,
            \<lparr>rec_id = 13, embedding = [7, 8], metadata = ''''\<rparr>]"
    by (simp add: h fresh_db_facts upt_conv_Cons)
  with r h fresh_db_facts(1,2) show ?thesis by simp
qed

subsection \<open>Compaction\<close>

lemma compact_loop_result:
  assumes "\<forall>seg \<in> set (filter (\<lambda>g. ratio_reaches (tombstone_ratio g) t) segs). fs (filepath seg) \<noteq> None"
    and "distinct (map filepath (filter (\<lambda>g. ratio_reaches (tombstone_ratio g) t) segs))"
  shows "compact_loop t d segs (fs, visited, clean, to_merge, reclaimed) =
     Inr (\<lambda>p. if p \<in> filepath ` set (filter (\<lambda>g. ratio_reaches (tombstone_ratio g) t) segs)
               then None else fs p,
          visited @ map (\<lambda>g. if ratio_reaches (tombstone_ratio g) t then g else moved_from g) segs,
          clean @ filter (\<lambda>g. \<not> ratio_reaches (tombstone_ratio g) t) segs,
          to_merge @ concat (map (\<lambda>g. live_rows d (the (fs (filepath g))) (sealed_deleted g))
                                 (filter (\<lambda>g. ratio_reaches (tombstone_ratio g) t) segs)),
          reclaimed + sum_list
            (map (\<lambda>g. of_nat (num_records g)
                        - of_nat (length (live_rows d (the (fs (filepath g)))
                                            (sealed_deleted g))))
                 (filter (\<lambda>g. ratio_reaches (tombstone_ratio g) t) segs)))"
  using assms
proof (induction segs arbitrary: fs visited clean to_merge reclaimed)
  case Nil
  show ?case by simp
next
  case (Cons seg segs)
  let ?dirty = "\<lambda>g. ratio_reaches (tombstone_ratio g) t"
  show ?case
  proof (cases "?dirty seg")
    case False
    with Cons.prems have "\<forall>g \<in> set (filter ?dirty segs). fs (filepath g) \<noteq> None"
      and "distinct (map filepath (filter ?dirty segs))" by simp_all
    from Cons.IH [OF this] False show ?thesis by simp
  next
    case True
    let ?fs1 = "fs(filepath seg := None)"
    from True Cons.prems obtain f where f: "fs (filepath seg) = Some f" by auto
    from True Cons.prems(2)
    have notin: "filepath seg \<notin> set (map filepath (filter ?dirty segs))" by simp
    have other: "filepath g \<noteq> filepath seg"
      if "g \<in> set (filter ?dirty segs)" for g
    proof
      assume "filepath g = filepath seg"
      with that have "filepath seg \<in> set (map filepath (filter ?dirty segs))"
        by (metis imageI list.set_map)
      with notin show False by contradiction
    qed
    then have same: "?fs1 (filepath g) = fs (filepath g)"
      if "g \<in> set (filter ?dirty segs)" for g
      using that by simp
    have a1: "\<forall>g \<in> set (filter ?dirty segs). ?fs1 (filepath g) \<noteq> None"
      using same True Cons.prems(1) by simp
    have a2: "distinct (map filepath (filter ?dirty segs))"
      using True Cons.prems(2) by simp
    have rows: "map (\<lambda>g. live_rows d (the (?fs1 (filepath g))) (sealed_deleted g))
                  (filter ?dirty segs)
        = map (\<lambda>g. live_rows d (the (fs (filepath g))) (sealed_deleted g))
                  (filter ?dirty segs)"
      by (intro map_cong refl) (simp only: same)
    have sums: "map (\<lambda>g. (of_nat (num_records g) :: size_t)
                   - of_nat (length (live_rows d (the (?fs1 (filepath g))) (sealed_deleted g))))
                  (filter ?dirty segs)
        = map (\<lambda>g. of_nat (num_records g)
                   - of_nat (length (live_rows d (the (fs (filepath g))) (sealed_deleted g))))
                  (filter ?dirty segs)"
      by (intro map_cong refl) (simp only: same)
    have fsq: "(\<lambda>p. if p \<in> filepath ` set (filter ?dirty segs) then None else ?fs1 p)
        = (\<lambda>p. if p \<in> filepath ` set (filter ?dirty (seg # segs)) then None else fs p)"
      using True by (intro ext) auto
    have "compact_loop t d (seg # segs) (fs, visited, clean, to_merge, reclaimed) =
        compact_loop t d segs
          (?fs1, visited @ [seg], clean, to_merge @ live_rows d f (sealed_deleted seg),
           reclaimed + (of_nat (num_records seg)
                        - of_nat (length (live_rows d f (sealed_deleted seg)))))"
      using True f by (simp add: read_parquet_eq)
    also note Cons.IH [OF a1 a2]
    finally show ?thesis
      unfolding rows sums fsq using True f by (simp add: add.assoc)
  qed
qed

lemma store_inv_paths_distinct:
  assumes "store_inv s"
  shows "distinct (map filepath (sealed_segments s))"
proof -
  have eq: "map filepath (sealed_segments s) =
      map (segment_path (data_dir s)) (map sealed_segment_id (sealed_segments s))"
    using sealed_ok_path [OF store_inv_sealed_ok [OF assms]] by simp
  have "distinct (map (segment_path (data_dir s))
      (map sealed_segment_id (sealed_segments s)))"
    using assms by (subst distinct_map) (simp add: store_inv_def inj_on_def)
  then show ?thesis by (simp only: eq)
qed


lemma segment_live_rows_inv:
  assumes "store_inv s" and "seg \<in> set (sealed_segments s)"
  shows "live_rows (dim s) (the (files s (filepath seg))) (sealed_deleted seg)
           = segment_live_rows s seg"
    and "list_all (\<lambda>r. length (embedding r) = dim s) (segment_live_rows s seg)"
    and "length (segment_live_rows s seg) \<le> num_records seg"
proof -
  from sealed_ok_file [OF store_inv_sealed_ok [OF assms]]
  obtain f where f: "files s (filepath seg) = Some f" "file_ok (dim s) f"
    "num_rows f = num_records seg" by blast
  then show "live_rows (dim s) (the (files s (filepath seg))) (sealed_deleted seg)
           = segment_live_rows s seg"
    by (simp add: segment_live_rows_def)
  from f live_rows_lengths [of "dim s" f]
  show "list_all (\<lambda>r. length (embedding r) = dim s) (segment_live_rows s seg)"
    by (simp add: segment_live_rows_def)
  have "length (live_rows (dim s) f (sealed_deleted seg)) \<le> length (file_rows (dim s) f)"
    unfolding live_rows_def by (rule length_filter_le)
  with f show "length (segment_live_rows s seg) \<le> num_records seg"
    by (simp add: segment_live_rows_def file_rows_def)
qed

lemma rows_to_merge_lengths:
  assumes "store_inv s"
  shows "list_all (\<lambda>r. length (embedding r) = dim s) (rows_to_merge t s)"
  using segment_live_rows_inv(2) [OF assms]
  by (auto simp: rows_to_merge_def dirty_segments_def list_all_iff)

text \<open>The files after the loop of \<open>compact\<close>: those of the rewritten segments are gone.\<close>

lemma compact_loop_store:
  assumes "store_inv s"
  shows "compact_loop t (dim s) (sealed_segments s) (files s, [], [], [], 0) =
     Inr (\<lambda>p. if p \<in> filepath ` set (dirty_segments t s) then None else files s p,
          map (\<lambda>g. if ratio_reaches (tombstone_ratio g) t then g else moved_from g) (sealed_segments s),
          clean_segments t s,
          rows_to_merge t s,
          sum_list (map (\<lambda>seg. of_nat (num_records seg)
                                 - of_nat (length (segment_live_rows s seg)))
                        (dirty_segments t s)))"
proof -
  let ?dirty = "\<lambda>g. ratio_reaches (tombstone_ratio g) t"
  have a1: "\<forall>seg \<in> set (filter ?dirty (sealed_segments s)). files s (filepath seg) \<noteq> None"
    using sealed_ok_file [OF store_inv_sealed_ok [OF assms]] by auto
  have a2: "distinct (map filepath (filter ?dirty (sealed_segments s)))"
    using store_inv_paths_distinct [OF assms] by (rule distinct_map_filter)
  have rows: "map (\<lambda>g. live_rows (dim s) (the (files s (filepath g))) (sealed_deleted g))
                (filter ?dirty (sealed_segments s))
      = map (segment_live_rows s) (filter ?dirty (sealed_segments s))"
    using segment_live_rows_inv(1) [OF assms] by (intro map_cong refl) simp
  have sums: "map (\<lambda>g. (of_nat (num_records g) :: size_t)
                 - of_nat (length (live_rows (dim s) (the (files s (filepath g)))
                                     (sealed_deleted g))))
                (filter ?dirty (sealed_segments s))
      = map (\<lambda>seg. of_nat (num_records seg) - of_nat (length (segment_live_rows s seg)))
                (filter ?dirty (sealed_segments s))"
    using segment_live_rows_inv(1) [OF assms] by (intro map_cong refl) simp
  show ?thesis
    unfolding compact_loop_result [OF a1 a2] rows sums
    by (simp add: dirty_segments_def clean_segments_def rows_to_merge_def)
qed

lemma compacted_store_fields [simp]:
  "dim (compacted_store t s) = dim s" "data_dir (compacted_store t s) = data_dir s"
  "segment_capacity (compacted_store t s) = segment_capacity s"
  "active_segment (compacted_store t s) = active_segment s"
  "next_segment_id (compacted_store t s) =
     (if rows_to_merge t s = [] then next_segment_id s else next_segment_id s + 1)"
  "sealed_segments (compacted_store t s) =
     clean_segments t s @
       (if rows_to_merge t s = [] then []
        else [\<lparr>sealed_segment_id = next_segment_id s,
                filepath = segment_path (data_dir s) (next_segment_id s),
                num_records = length (rows_to_merge t s), sealed_deleted = {}\<rparr>])"
  by (simp_all add: compacted_store_def commit_snapshot_def Let_def)

lemma compacted_store_files:
  "files (compacted_store t s) p =
     (if rows_to_merge t s \<noteq> [] \<and> p = segment_path (data_dir s) (next_segment_id s)
      then Some (file_of (rows_to_merge t s))
      else if p \<in> filepath ` set (dirty_segments t s) then None
      else files s p)"
  by (simp add: compacted_store_def commit_snapshot_def Let_def)

lemma store_compact_inv_result:
  assumes "store_inv s"
  shows "store_compact t s =
     (Inr (sum_list (map (\<lambda>seg. of_nat (num_records seg)
                                  - of_nat (length (segment_live_rows s seg)))
                         (dirty_segments t s))),
      compacted_store t s)"
proof -
  from assms have d: "0 < dim s" by (simp add: store_inv_def)
  show ?thesis
    by (simp add: store_compact_def compact_loop_store [OF assms] compacted_store_def Let_def
        write_parquet_ok [OF d rows_to_merge_lengths [OF assms]])
qed

lemma clean_segment_facts:
  assumes "store_inv s" and "seg \<in> set (clean_segments t s)"
  shows "seg \<in> set (sealed_segments s)"
    and "filepath seg \<notin> filepath ` set (dirty_segments t s)"
    and "filepath seg \<noteq> segment_path (data_dir s) (next_segment_id s)"
proof -
  from assms(2) have r: "\<not> ratio_reaches (tombstone_ratio seg) t"
    by (simp add: clean_segments_def)
  from assms(2) show m: "seg \<in> set (sealed_segments s)" by (simp add: clean_segments_def)
  have inj: "inj_on filepath (set (sealed_segments s))"
    using store_inv_paths_distinct [OF assms(1)] by (simp add: distinct_map)
  show "filepath seg \<notin> filepath ` set (dirty_segments t s)"
  proof
    assume "filepath seg \<in> filepath ` set (dirty_segments t s)"
    then obtain g where g: "g \<in> set (sealed_segments s)" "ratio_reaches (tombstone_ratio g) t"
      "filepath seg = filepath g" by (auto simp: dirty_segments_def)
    with inj m have "seg = g" by (auto dest: inj_onD)
    with g r show False by simp
  qed
  from store_inv_sealed_ok [OF assms(1) m]
  have "filepath seg = segment_path (data_dir s) (sealed_segment_id seg)"
    and "sealed_segment_id seg < next_segment_id s" by (simp_all add: sealed_ok_def)
  then show "filepath seg \<noteq> segment_path (data_dir s) (next_segment_id s)" by simp
qed

lemma store_inv_compacted:
  assumes "store_inv s"
  shows "store_inv (compacted_store t s)"
proof -
  let ?s' = "compacted_store t s"
  let ?path = "segment_path (data_dir s) (next_segment_id s)"
  have old: "sealed_ok ?s' seg" if "seg \<in> set (clean_segments t s)" for seg
  proof (rule sealed_ok_frame [of s])
    show "sealed_ok s seg"
      using assms clean_segment_facts(1) [OF assms that] by (rule store_inv_sealed_ok)
    show "files ?s' (filepath seg) = files s (filepath seg)"
      using clean_segment_facts(2,3) [OF assms that] by (simp add: compacted_store_files)
  qed simp_all
  have new: "sealed_ok ?s'
      \<lparr>sealed_segment_id = next_segment_id s, filepath = ?path,
        num_records = length (rows_to_merge t s), sealed_deleted = {}\<rparr>"
    if "rows_to_merge t s \<noteq> []"
    using that file_ok_file_of [OF rows_to_merge_lengths [OF assms, of t]]
    by (simp add: sealed_ok_def compacted_store_files)
  have ids: "\<forall>seg \<in> set (sealed_segments s). sealed_segment_id seg < next_segment_id s"
    using assms by (auto simp: store_inv_def list_all_iff sealed_ok_def)
  have sub: "set (clean_segments t s) \<subseteq> set (sealed_segments s)"
    by (auto simp: clean_segments_def)
  have a: "list_all (sealed_ok ?s') (sealed_segments ?s')"
    using old new by (simp add: list_all_iff)
  have "distinct (map sealed_segment_id (clean_segments t s))"
    using assms unfolding clean_segments_def store_inv_def by (intro distinct_map_filter) simp
  with ids sub have b: "distinct (map sealed_segment_id (sealed_segments ?s'))"
    by auto
  have c: "segment_id (active_segment ?s') \<notin> sealed_segment_id ` set (sealed_segments ?s')"
    using ids sub assms by (auto simp: store_inv_def)
  from assms a b c show ?thesis
    by (simp add: store_inv_def)
qed

lemma store_inv_compact: "store_inv s \<Longrightarrow> store_inv (snd (store_compact t s))"
  by (simp add: store_compact_inv_result store_inv_compacted)




text \<open>
  The rounding at some values: \<open>3 / 10\<close> rounds to the float \<open>0.3f\<close>, above \<open>3 / 10\<close>; sizes
  beyond 24 bits round to even; below \<open>2 ^ -126\<close> the grid is that of the subnormal numbers.
\<close>

lemmas nearest_float_eval =
  nearest_float_def last_bit_exponent_def round_to_even_def pow2_def bit_length.simps Let_def

lemma nearest_float_values:
  "nearest_float (1 / 10) = 13421773 / 2 ^ 27"
  "nearest_float (3 / 10) = 10066330 / 2 ^ 25"
  "nearest_float (7 / 10) = 11744051 / 2 ^ 24"
  "nearest_float (- (1 / 3)) = - (11184811 / 2 ^ 25)"
  "nearest_float (1 / 10 ^ 10) = 14411519 / 2 ^ 57"
  "nearest_float 1 = 1"
  "nearest_float 16777217 = 16777216"
  "nearest_float 16777219 = 16777220"
  "nearest_float 123456789 = 123456792"
  "nearest_float 18446744073709551615 = 18446744073709551616"
  "nearest_float (1 / 2 ^ 64) = 1 / 2 ^ 64"
  "nearest_float (2 ^ 128 - 2 ^ 103 - 1) = 2 ^ 128 - 2 ^ 104"
  "nearest_float (2 ^ 128 - 2 ^ 103) = 2 ^ 128"
  "nearest_float (3 / 2 ^ 150) = 2 / 2 ^ 149"
  "nearest_float (1 / 2 ^ 150) = 0"
  by (simp_all add: nearest_float_eval)

lemma tombstone_ratio_values:
  "tombstone_ratio \<lparr>sealed_segment_id = 0, filepath = [], num_records = 10,
                     sealed_deleted = {1, 2, 3}\<rparr> = 10066330 / 2 ^ 25"
  "tombstone_ratio \<lparr>sealed_segment_id = 0, filepath = [], num_records = 3,
                     sealed_deleted = {1}\<rparr> = 11184811 / 2 ^ 25"
  "tombstone_ratio \<lparr>sealed_segment_id = 0, filepath = [], num_records = 0,
                     sealed_deleted = {1}\<rparr> = 0"
  by code_simp+






subsection \<open>Every reachable store satisfies the invariant\<close>

lemma store_inv_insert: "store_inv s \<Longrightarrow> store_inv (snd (store_insert i emb meta s))"
  by (simp add: store_insert_def Let_def store_inv_push store_inv_flush)

lemma store_inv_bulk_insert:
  assumes "store_inv s" and "count * d \<le> length vectors"
  shows "store_inv (snd (bulk_insert ids vectors count d s))"
proof (cases "d = dim s")
  case True
  from bulk_insert_inv [OF assms(1) True assms(2), of ids] show ?thesis by auto
next
  case False
  with assms(1) show ?thesis by (simp add: bulk_insert_def)
qed

lemma store_inv_apply_op: "store_inv s \<Longrightarrow> op_ok x \<Longrightarrow> store_inv (apply_op x s)"
  by (cases x)
     (simp_all add: store_inv_insert store_inv_bulk_insert store_inv_delete store_inv_flush
        store_inv_compact flush_def)

lemma store_inv_run_ops:
  "store_inv s \<Longrightarrow> list_all (\<lambda>(now, x). op_ok x) xs \<Longrightarrow> store_inv (run_ops xs s)"
proof (induction xs arbitrary: s)
  case Nil
  then show ?case by simp
next
  case (Cons a xs)
  obtain now x where a: "a = (now, x)" by (cases a)
  from Cons.prems a have "store_inv (apply_op x (s\<lparr>clock := now\<rparr>))"
    by (intro store_inv_apply_op) simp_all
  from Cons.IH [OF this] Cons.prems(2) a show ?case by simp
qed

lemma store_inv_reachable:
  "0 < d \<Longrightarrow> list_all (\<lambda>(now, x). op_ok x) xs \<Longrightarrow>
   store_inv (run_ops xs (open_store d cap dir fs now))"
  by (intro store_inv_run_ops store_inv_open)

subsection \<open>Compact and rebuild\<close>

lemma hnsw_build_vectors:
  "hnsw_build vs h = h\<lparr>hnsw_vectors := hnsw_vectors h @ vs\<rparr>"
  by (induction vs arbitrary: h) (simp_all add: hnsw_insert_def)

text \<open>
  Claim C10. When \<open>compact_and_rebuild\<close> returns, the index is a new one with
  \<open>M = 16\<close> (hence \<open>M_max0 = 32\<close>), \<open>ef_construction = 200\<close> and \<open>ef_search = 50\<close>, whatever
  the index of the engine was before, and it holds exactly the embeddings of the result
  of \<open>scan_all\<close> on the compacted store, in scan order. It does return on every engine
  whose store satisfies its invariant. (When the compaction or the scan throws, the index
  is the one from before.) Of the index the model has the parameters and the vectors;
  the graph that \<open>HNSWIndex::insert\<close> builds over them is not modelled.
\<close>

theorem compact_and_rebuild_index:
  "(compact_and_rebuild t db = (Inr reclaimed, db') \<longrightarrow>
      (\<exists>live. scan_all (store db') = Inr live
         \<and> hnsw db' =
             \<lparr>hnsw_dim = vdb_dim db, hnsw_M = 16, hnsw_M_max0 = 32,
              hnsw_ef_construction = 200, hnsw_ef_search = 50,
              hnsw_vectors = map embedding live\<rparr>))
   \<and> (store_inv (store db) \<longrightarrow>
        (\<exists>n db''. compact_and_rebuild t db = (Inr n, db'')))"
proof (intro conjI impI)
  assume "compact_and_rebuild t db = (Inr reclaimed, db')"
  then show "\<exists>live. scan_all (store db') = Inr live
         \<and> hnsw db' =
             \<lparr>hnsw_dim = vdb_dim db, hnsw_M = 16, hnsw_M_max0 = 32,
              hnsw_ef_construction = 200, hnsw_ef_search = 50,
              hnsw_vectors = map embedding live\<rparr>"
    by (auto simp: compact_and_rebuild_def hnsw_build_vectors hnsw_new_def
        split: prod.splits sum.splits)
next
  assume inv: "store_inv (store db)"
  from store_compact_inv_result [OF inv, of t] scan_all_inv [OF store_inv_compacted [OF inv, of t]]
  show "\<exists>n db''. compact_and_rebuild t db = (Inr n, db'')"
    by (simp add: compact_and_rebuild_def)
qed

lemma compact_and_rebuild_error:
  "compact_and_rebuild t db = (Inl e, db') \<Longrightarrow> hnsw db' = hnsw db"
  by (auto simp: compact_and_rebuild_def split: prod.splits sum.splits)

lemma vdb_insert_store [simp]:
  "store (snd (vdb_insert i emb meta db)) = snd (store_insert i emb meta (store db))"
  "vdb_dim (snd (vdb_insert i emb meta db)) = vdb_dim db"
  by (simp_all add: vdb_insert_def split: prod.splits sum.splits)

lemma vdb_delete_store [simp]:
  "store (vdb_delete_vector i db) = delete_vector i (store db)"
  "vdb_dim (vdb_delete_vector i db) = vdb_dim db"
  "hnsw (vdb_delete_vector i db) = hnsw db"
  by (simp_all add: vdb_delete_vector_def)

lemma compact_and_rebuild_inv_result:
  assumes "store_inv (store db)"
  shows "compact_and_rebuild t db =
     (Inr (sum_list (map (\<lambda>seg. of_nat (num_records seg)
                                  - of_nat (length (segment_live_rows (store db) seg)))
                         (dirty_segments t (store db)))),
      db\<lparr>store := compacted_store t (store db),
         hnsw := \<lparr>hnsw_dim = vdb_dim db, hnsw_M = 16, hnsw_M_max0 = 32,
                  hnsw_ef_construction = 200, hnsw_ef_search = 50,
                  hnsw_vectors =
                    map embedding (live_records (compacted_store t (store db)))\<rparr>\<rparr>)"
  using store_compact_inv_result [OF assms, of t]
    scan_all_inv [OF store_inv_compacted [OF assms, of t]]
  by (simp add: compact_and_rebuild_def hnsw_build_vectors hnsw_new_def)

lemma rebuild_db_inv: "store_inv (store rebuild_db)"
  by (simp add: rebuild_db_def vectordb_new_def store_inv_insert store_inv_delete
      store_inv_open)

lemma rebuild_db_eval:
  "hnsw_M (hnsw rebuild_db) = 8"
  "hnsw_ef_construction (hnsw rebuild_db) = 100"
  "hnsw_ef_search (hnsw rebuild_db) = 20"
  "vdb_dim rebuild_db = 2"
  by (simp_all add: rebuild_db_def vectordb_new_def vdb_insert_def hnsw_new_def
      hnsw_insert_def split: prod.splits sum.splits)

lemma rebuild_db_store: "store rebuild_db = rebuild_store"
  by (simp add: rebuild_db_def rebuild_store_def vectordb_new_def store_eval)

lemma rebuild_store_eval:
  "sum_list (map (\<lambda>seg. of_nat (num_records seg)
                          - of_nat (length (segment_live_rows rebuild_store seg)))
                 (dirty_segments default_threshold rebuild_store)) = (1 :: size_t)"
  "live_records (compacted_store default_threshold rebuild_store) =
     [\<lparr>rec_id = 2, embedding = [2, 2], metadata = ''b''\<rparr>,
      \<lparr>rec_id = 3, embedding = [3, 3], metadata = ''c''\<rparr>]"
  by code_simp+

theorem compact_and_rebuild_index_witness:
  "store_inv (store rebuild_db)
   \<and> vdb_dim rebuild_db = 2
   \<and> hnsw_M (hnsw rebuild_db) = 8
   \<and> hnsw_ef_construction (hnsw rebuild_db) = 100
   \<and> hnsw_ef_search (hnsw rebuild_db) = 20
   \<and> fst (compact_and_rebuild default_threshold rebuild_db) = Inr 1
   \<and> scan_all (store (snd (compact_and_rebuild default_threshold rebuild_db))) =
       Inr [\<lparr>rec_id = 2, embedding = [2, 2], metadata = ''b''\<rparr>,
            \<lparr>rec_id = 3, embedding = [3, 3], metadata = ''c''\<rparr>]
   \<and> hnsw (snd (compact_and_rebuild default_threshold rebuild_db)) =
       \<lparr>hnsw_dim = 2, hnsw_M = 16, hnsw_M_max0 = 32, hnsw_ef_construction = 200,
        hnsw_ef_search = 50, hnsw_vectors = [[2, 2], [3, 3]]\<rparr>"
proof -
  let ?db' = "snd (compact_and_rebuild default_threshold rebuild_db)"
  note r = compact_and_rebuild_inv_result [OF rebuild_db_inv, of default_threshold]
  have f: "fst (compact_and_rebuild default_threshold rebuild_db) = Inr 1"
    by (simp add: r rebuild_db_store rebuild_store_eval)
  then have e: "compact_and_rebuild default_threshold rebuild_db = (Inr 1, ?db')"
    by (simp add: prod_eq_iff)
  have scan: "scan_all (store ?db') =
       Inr [\<lparr>rec_id = 2, embedding = [2, 2], metadata = ''b''\<rparr>,
            \<lparr>rec_id = 3, embedding = [3, 3], metadata = ''c''\<rparr>]"
    using scan_all_inv [OF store_inv_compacted [OF rebuild_db_inv, of default_threshold]]
    by (simp add: r rebuild_db_store rebuild_store_eval)
  from compact_and_rebuild_index [of default_threshold rebuild_db 1 ?db', THEN conjunct1,
      rule_format, OF e]
    compact_and_rebuild_index [of default_threshold rebuild_db, THEN conjunct2,
      rule_format, OF rebuild_db_inv]
  have h: "hnsw ?db' =
       \<lparr>hnsw_dim = 2, hnsw_M = 16, hnsw_M_max0 = 32, hnsw_ef_construction = 200,
        hnsw_ef_search = 50, hnsw_vectors = [[2, 2], [3, 3]]\<rparr>"
    by (auto simp: scan rebuild_db_eval)
  from f scan h show ?thesis
    by (simp add: rebuild_db_inv rebuild_db_eval)
qed

end
